theory Spec2Isabelle
  imports Complex_Main "HOL-Library.Sublist"
begin

section \<open>Time\<close>

text \<open>
  Go's \<open>time.Time\<close> readings and \<open>time.Duration\<close> values are counts of nanoseconds.
  They are unbounded integers here; the only duration the code compares against is
  \<open>3*time.Minute\<close>, and the saturation of \<open>time.Since\<close> at the ends of the 64-bit range
  does not change the outcome of that comparison.
\<close>

type_synonym time = int

definition second :: int where
  "second = 1000000000"

definition minute :: int where
  "minute = 60 * second"

definition seconds :: "int \<Rightarrow> rat" where
  "seconds d = of_int d / of_int second"


section \<open>The token-bucket limiter\<close>

text \<open>
  Modelled from the spec: \<open>rate.Limiter\<close>, \<open>rate.NewLimiter\<close> and \<open>Limiter.Allow\<close> belong to
  golang.org/x/time/rate, which is not under src/. The model follows section 4.1 of the
  spec and the comment above \<open>globalRateLimit\<close> in middleware.go: a bucket of \<open>capacity\<close>
  tokens, initially full, refilled continuously at \<open>refillRatePerSecond\<close> tokens per second
  and capped at \<open>capacity\<close>; each call first refills for the time elapsed since
  \<open>lastRefill\<close>, then admits and takes one token when at least one token is there, and
  rejects without taking anything otherwise. The clock reading of a call is its argument.
  A new limiter has the zero time as \<open>lastRefill\<close>.

  Token counts are exact rationals. The spec types them as float, and the library keeps
  float64 tokens and whole nanoseconds: the rounding is not modelled, so where the token
  count is within rounding of 1 the decision of \<open>allow\<close> can differ from the
  library's. What is proved below of the registry and of the chain holds for whatever
  the limiter decides; only the bound on the number of admitted calls in a window is a
  statement about the exact bucket alone.
\<close>

record Limiter =
  capacity :: int
  refillRatePerSecond :: rat
  tokens :: rat
  lastRefill :: time

definition NewLimiter :: "rat \<Rightarrow> int \<Rightarrow> Limiter" where
  "NewLimiter r b =
     \<lparr>capacity = b, refillRatePerSecond = r, tokens = of_int b, lastRefill = 0\<rparr>"

definition refill :: "time \<Rightarrow> Limiter \<Rightarrow> rat" where
  "refill now l =
     min (of_int (capacity l))
         (tokens l + refillRatePerSecond l * seconds (now - lastRefill l))"

definition allow :: "time \<Rightarrow> Limiter \<Rightarrow> bool \<times> Limiter" where
  "allow now l =
     (let t = refill now l
      in if 1 \<le> t then (True, l\<lparr>tokens := t - 1, lastRefill := now\<rparr>)
         else (False, l\<lparr>tokens := t, lastRefill := now\<rparr>))"

text \<open>A sequence of calls on one limiter, at the given clock readings, with each result.\<close>

fun allows :: "Limiter \<Rightarrow> time list \<Rightarrow> (time \<times> bool) list" where
  "allows l [] = []"
| "allows l (t # ts) = (case allow t l of (ok, l') \<Rightarrow> (t, ok) # allows l' ts)"

text \<open>The number of admitted calls whose clock reading lies in the window \<open>[a, a + T]\<close>.\<close>

definition admitted_in :: "time \<Rightarrow> int \<Rightarrow> (time \<times> bool) list \<Rightarrow> nat" where
  "admitted_in a T xs = length (filter (\<lambda>(t, ok). ok \<and> a \<le> t \<and> t \<le> a + T) xs)"

definition limiter_inv :: "Limiter \<Rightarrow> bool" where
  "limiter_inv l \<longleftrightarrow>
     0 \<le> refillRatePerSecond l \<and> 0 \<le> tokens l \<and> tokens l \<le> of_int (capacity l)"


section \<open>The client registry of \<open>rateLimit\<close>\<close>

text \<open>
  \<open>rateLimit\<close> keeps, behind one mutex, a map from the client's IP address to a pointer to
  a \<open>client\<close> struct. The structs live in a store and the map holds addresses, so that
  whether two addresses of the map can reach the same struct is a property of the code
  and not of the model. A struct holds its limiter and the time the client was last seen;
  \<open>&client{...}\<close> allocates a fresh cell at the end of the store.
\<close>

record client =
  limiter :: Limiter
  lastSeen :: time

type_synonym addr = nat

record registry =
  clients :: "string \<rightharpoonup> addr"
  heap :: "client list"

definition no_clients :: registry where
  "no_clients = \<lparr>clients = Map.empty, heap = []\<rparr>"

text \<open>The fields of \<open>config\<close> in main that the middleware reads.\<close>

record config =
  limiter_rps :: rat
  limiter_burst :: int
  limiter_enabled :: bool
  cors_trustedOrigins :: "string list"

text \<open>
  The critical section of \<open>rateLimit\<close>, from \<open>mu.Lock()\<close> to the result of \<open>Allow()\<close>:
  insert a client with a new limiter when the address is not in the map, set
  \<open>lastSeen\<close>, ask the limiter. The section runs under the mutex and is one step at the
  clock reading \<open>now\<close>.
\<close>

definition admit :: "config \<Rightarrow> string \<Rightarrow> time \<Rightarrow> registry \<Rightarrow> bool \<times> registry" where
  "admit cfg ip now reg =
     (let (p, reg1) = (case clients reg ip of
                         Some p \<Rightarrow> (p, reg)
                       | None \<Rightarrow>
                           (length (heap reg),
                            reg\<lparr>clients := (clients reg)(ip \<mapsto> length (heap reg)),
                                heap := heap reg @
                                  [\<lparr>limiter = NewLimiter (limiter_rps cfg) (limiter_burst cfg),
                                    lastSeen = 0\<rparr>]\<rparr>));
          reg2 = reg1\<lparr>heap := (heap reg1)[p := (heap reg1 ! p)\<lparr>lastSeen := now\<rparr>]\<rparr>;
          (ok, l') = allow now (limiter (heap reg2 ! p));
          reg3 = reg2\<lparr>heap := (heap reg2)[p := (heap reg2 ! p)\<lparr>limiter := l'\<rparr>]\<rparr>
      in (ok, reg3))"

text \<open>
  One pass of the background goroutine of \<open>rateLimit\<close> (one tick of \<open>time.Tick(time.Minute)\<close>),
  under the same mutex: every entry not seen within the last three minutes is deleted
  from the map.
\<close>

definition sweep :: "time \<Rightarrow> registry \<Rightarrow> registry" where
  "sweep now reg =
     reg\<lparr>clients :=
       (\<lambda>ip. case clients reg ip of
               None \<Rightarrow> None
             | Some p \<Rightarrow>
                 if now - lastSeen (heap reg ! p) > 3 * minute then None else Some p)\<rparr>"

text \<open>What the map holds for an address: the struct its pointer leads to.\<close>

definition entry :: "registry \<Rightarrow> string \<Rightarrow> client option" where
  "entry reg ip = (case clients reg ip of None \<Rightarrow> None | Some p \<Rightarrow> Some (heap reg ! p))"

text \<open>
  Go's pointers never dangle and \<open>&client{...}\<close> is always a new object: every address in
  the map is allocated, and no two keys hold the same address.
\<close>

definition registry_ok :: "registry \<Rightarrow> bool" where
  "registry_ok reg \<longleftrightarrow>
     (\<forall>ip p. clients reg ip = Some p \<longrightarrow> p < length (heap reg)) \<and>
     (\<forall>ip ip' p. clients reg ip = Some p \<longrightarrow> clients reg ip' = Some p \<longrightarrow> ip = ip')"

text \<open>
  What happens to the registry over time: requests that reach the critical section, each
  with its client address and clock reading, and ticks of the sweep.
\<close>

datatype registry_event = Request string time | Tick time

fun decisions :: "config \<Rightarrow> string \<Rightarrow> registry_event list \<Rightarrow> registry \<Rightarrow> bool list" where
  "decisions cfg b [] reg = []"
| "decisions cfg b (Request ip now # evs) reg =
     (case admit cfg ip now reg of
        (ok, reg') \<Rightarrow> (if ip = b then [ok] else []) @ decisions cfg b evs reg')"
| "decisions cfg b (Tick now # evs) reg = decisions cfg b evs (sweep now reg)"

fun from_client :: "string \<Rightarrow> registry_event \<Rightarrow> bool" where
  "from_client a (Request ip now) = (ip = a)"
| "from_client a (Tick now) = False"


section \<open>Requests, responses and the helpers of the API\<close>

text \<open>
  Modelled from the spec: \<open>data.User\<close>, \<open>data.AnonymousUser\<close> and \<open>User.IsAnonymous\<close>
  (internal/data/users.go is not under src/). The identity of a request is the tagged
  variant of section 3 of the spec: anonymous, or an authenticated user with its
  activation status. Of a user, the middleware reads \<open>ID\<close> and \<open>Activated\<close>; the anonymous
  identity is not activated.
\<close>

record user =
  ID :: int
  Activated :: bool

datatype identity = AnonymousUser | Authenticated user

fun IsAnonymous :: "identity \<Rightarrow> bool" where
  "IsAnonymous AnonymousUser = True"
| "IsAnonymous (Authenticated u) = False"

fun identity_Activated :: "identity \<Rightarrow> bool" where
  "identity_Activated AnonymousUser = False"
| "identity_Activated (Authenticated u) = Activated u"

fun identity_ID :: "identity \<Rightarrow> int" where
  "identity_ID AnonymousUser = 0"
| "identity_ID (Authenticated u) = ID u"

text \<open>
  A request, as far as the middleware reads it: the method, the headers (\<open>http.Header\<close>
  maps a name to its list of values), the address \<open>realip.FromRequest\<close> gives, and the user
  value of the request context. Two readings of the environment taken while the request
  is served come with it: the clock inside the critical section of \<open>rateLimit\<close>, and the
  duration in microseconds that httpsnoop measures for \<open>metrics\<close>.
\<close>

record request =
  Method :: string
  Header :: "string \<rightharpoonup> string list"
  RealIP :: string
  ctx_user :: "identity option"
  arrival :: time
  elapsed_us :: int

text \<open>\<open>Header.Get\<close>: the first value of the header, the empty string when there is none.\<close>

definition Get :: "(string \<rightharpoonup> string list) \<Rightarrow> string \<Rightarrow> string" where
  "Get h k = (case h k of None \<Rightarrow> [] | Some [] \<Rightarrow> [] | Some (v # vs) \<Rightarrow> v)"

text \<open>\<open>strings.Split(s, " ")\<close>: the pieces of \<open>s\<close> between the occurrences of the separator.\<close>

fun Split :: "string \<Rightarrow> char \<Rightarrow> string list" where
  "Split [] sep = [[]]"
| "Split (c # cs) sep =
     (if c = sep then [] # Split cs sep
      else (case Split cs sep of [] \<Rightarrow> [[c]] | p # ps \<Rightarrow> (c # p) # ps))"

text \<open>
  The client-facing rejections, named after the helpers that send them. The helpers are
  in cmd/api/errors.go, which is not under src/.
\<close>

datatype reply =
    RateLimitExceeded
  | InvalidAuthenticationToken
  | ServerError
  | AuthenticationRequired
  | InactiveAccount
  | NotPermitted

datatype body = ErrorBody reply | OtherBody string

datatype scope = ScopeActivation | ScopeAuthentication | ScopePasswordReset

datatype lookup_error = ErrRecordNotFound | ErrOther string

text \<open>
  What a handler can reach of the connection and of the collaborators: the response
  writer (headers set, the first status written, the bodies written), the error log, and
  the record of the calls made to storage.
\<close>

datatype call = Call_GetForToken scope string | Call_GetAllForUser int

record conn_state =
  w_header :: "string \<rightharpoonup> string"
  w_code :: "nat option"
  w_body :: "body list"
  errlog :: "string list"
  calls :: "call list"

definition Header_Set :: "string \<Rightarrow> string \<Rightarrow> conn_state \<Rightarrow> conn_state" where
  "Header_Set k v c = c\<lparr>w_header := (w_header c)(k \<mapsto> v)\<rparr>"

text \<open>\<open>ResponseWriter.WriteHeader\<close>: the first status written is the one sent.\<close>

definition WriteHeader :: "nat \<Rightarrow> conn_state \<Rightarrow> conn_state" where
  "WriteHeader code c = (case w_code c of None \<Rightarrow> c\<lparr>w_code := Some code\<rparr> | Some old \<Rightarrow> c)"

text \<open>\<open>ResponseWriter.Write\<close>: writes status 200 first when no status was written.\<close>

definition Write :: "body \<Rightarrow> conn_state \<Rightarrow> conn_state" where
  "Write b c = (let c' = WriteHeader 200 c in c'\<lparr>w_body := w_body c' @ [b]\<rparr>)"

text \<open>
  Modelled from the spec: the response helpers of cmd/api/errors.go, which is not under
  src/. By section 7 of the spec each sends one structured error body of its category;
  \<open>serverErrorResponse\<close> also logs the error. The status of each helper is the one the
  comments of middleware.go give: 429 when the rate limit is exceeded, 500 for a server
  error, 401 for missing or bad authentication, 403 for an authenticated user who is not
  allowed.
\<close>

fun status_of :: "reply \<Rightarrow> nat" where
  "status_of RateLimitExceeded = 429"
| "status_of InvalidAuthenticationToken = 401"
| "status_of ServerError = 500"
| "status_of AuthenticationRequired = 401"
| "status_of InactiveAccount = 403"
| "status_of NotPermitted = 403"

definition errorResponse :: "reply \<Rightarrow> conn_state \<Rightarrow> conn_state" where
  "errorResponse k c = Write (ErrorBody k) (WriteHeader (status_of k) c)"

definition serverErrorResponse :: "string \<Rightarrow> conn_state \<Rightarrow> conn_state" where
  "serverErrorResponse err c = errorResponse ServerError (c\<lparr>errlog := errlog c @ [err]\<rparr>)"

definition rateLimitExceededResponse :: "conn_state \<Rightarrow> conn_state" where
  "rateLimitExceededResponse = errorResponse RateLimitExceeded"

definition invalidAuthenticationTokenResponse :: "conn_state \<Rightarrow> conn_state" where
  "invalidAuthenticationTokenResponse = errorResponse InvalidAuthenticationToken"

definition authenticationRequiredResponse :: "conn_state \<Rightarrow> conn_state" where
  "authenticationRequiredResponse = errorResponse AuthenticationRequired"

definition inactiveAccountResponse :: "conn_state \<Rightarrow> conn_state" where
  "inactiveAccountResponse = errorResponse InactiveAccount"

definition notPermittedResponse :: "conn_state \<Rightarrow> conn_state" where
  "notPermittedResponse = errorResponse NotPermitted"

text \<open>
  A handler returns or panics; what it did to the connection before a panic stays done.
\<close>

datatype outcome = Returned | Panicked string

type_synonym handler = "request \<Rightarrow> conn_state \<Rightarrow> outcome \<times> conn_state"

text \<open>
  The \<open>application\<close> struct, as far as the middleware uses it: the configuration and the
  collaborators. \<open>Users.GetForToken\<close> and \<open>Permissions.GetAllForUser\<close> query the database
  and are parameters: each returns an error or its result. \<open>data.ValidateTokenPlaintext\<close>
  (internal/data/tokens.go, not under src/) is a parameter as well: it holds of a token
  when the validator is left without an error.
\<close>

record application =
  config :: config
  GetForToken :: "scope \<Rightarrow> string \<Rightarrow> lookup_error + user"
  GetAllForUser :: "int \<Rightarrow> string + string list"
  ValidateTokenPlaintext :: "string \<Rightarrow> bool"

text \<open>
  Modelled from the spec: \<open>contextSetUser\<close> and \<open>contextGetUser\<close> (cmd/api/context.go is not
  under src/). The identity is attached to the request-scoped context and read back
  unchanged; reading a context to which none was attached is a fault.
\<close>

definition contextSetUser :: "request \<Rightarrow> identity \<Rightarrow> request" where
  "contextSetUser r u = r\<lparr>ctx_user := Some u\<rparr>"

definition contextGetUser :: "request \<Rightarrow> string + identity" where
  "contextGetUser r =
     (case ctx_user r of
        None \<Rightarrow> Inl ''missing user value in request context''
      | Some u \<Rightarrow> Inr u)"


section \<open>The guards in front of single handlers\<close>

text \<open>
  \<open>requireAuthenticatedUser\<close>, \<open>requireActivatedUser\<close> and \<open>requirePermissions\<close> of
  middleware.go. Each wraps a handler; \<open>requireActivatedUser\<close> wraps its own check in
  \<open>requireAuthenticatedUser\<close>, and \<open>requirePermissions\<close> wraps its own in
  \<open>requireActivatedUser\<close>.
\<close>

definition requireAuthenticatedUser :: "handler \<Rightarrow> handler" where
  "requireAuthenticatedUser next r c =
     (case contextGetUser r of
        Inl e \<Rightarrow> (Panicked e, c)
      | Inr user \<Rightarrow>
          if IsAnonymous user then (Returned, authenticationRequiredResponse c)
          else next r c)"

definition requireActivatedUser :: "handler \<Rightarrow> handler" where
  "requireActivatedUser next =
     (let fn = (\<lambda>r c.
            case contextGetUser r of
              Inl e \<Rightarrow> (Panicked e, c)
            | Inr user \<Rightarrow>
                if \<not> identity_Activated user then (Returned, inactiveAccountResponse c)
                else next r c)
      in requireAuthenticatedUser fn)"

definition requirePermissions :: "application \<Rightarrow> string \<Rightarrow> handler \<Rightarrow> handler" where
  "requirePermissions app code next =
     (let fn = (\<lambda>r c.
            case contextGetUser r of
              Inl e \<Rightarrow> (Panicked e, c)
            | Inr user \<Rightarrow>
                (let c1 = c\<lparr>calls := calls c @ [Call_GetAllForUser (identity_ID user)]\<rparr>
                 in case GetAllForUser app (identity_ID user) of
                      Inl err \<Rightarrow> (Returned, serverErrorResponse err c1)
                    | Inr permissions \<Rightarrow>
                        if code \<notin> set permissions then (Returned, notPermittedResponse c1)
                        else next r c1))
      in requireActivatedUser fn)"


section \<open>The middleware chain of \<open>routes\<close>\<close>

text \<open>
  The middleware of the chain shares more than the connection: the client registry that
  \<open>rateLimit\<close> closes over and the expvar counters that \<open>metrics\<close> closes over. The
  \<open>trace\<close> records which stages were entered, in order; it is not in the source and is
  written by nothing but the first line of each stage.
\<close>

datatype stage = Metrics | RecoverPanic | EnableCORS | RateLimit | Authenticate | Router

record world =
  conn :: conn_state
  registry :: registry
  totalRequestsReceived :: int
  totalResponsesSent :: int
  totalProcessingTimeMicroseconds :: int
  totalResponsesSentbyStatus :: "nat \<Rightarrow> int"
  trace :: "stage list"

type_synonym chain_handler = "request \<Rightarrow> world \<Rightarrow> outcome \<times> world"

definition enter :: "stage \<Rightarrow> world \<Rightarrow> world" where
  "enter st w = w\<lparr>trace := trace w @ [st]\<rparr>"

definition on_conn :: "(conn_state \<Rightarrow> conn_state) \<Rightarrow> world \<Rightarrow> world" where
  "on_conn f w = w\<lparr>conn := f (conn w)\<rparr>"

text \<open>
  The router and the handlers registered with it are the terminal stage. The router
  (httprouter) is not part of the repository; the terminal stage is any handler, which
  reaches the connection and nothing else of the chain's state.
\<close>

definition dispatch :: "handler \<Rightarrow> chain_handler" where
  "dispatch h r w =
     (let w1 = enter Router w
      in case h r (conn w1) of (out, c') \<Rightarrow> (out, w1\<lparr>conn := c'\<rparr>))"

text \<open>
  \<open>recoverPanic\<close>: the deferred function runs when \<open>next\<close> panics; it sets a header named
  \<open>Connection:\<close> (the source writes the name with the colon) to \<open>close\<close> and sends the
  server-error response. \<open>Header().Set\<close> leaves a name with a colon as it is.
\<close>

definition recoverPanic :: "chain_handler \<Rightarrow> chain_handler" where
  "recoverPanic next r w =
     (case next r (enter RecoverPanic w) of
        (Returned, w') \<Rightarrow> (Returned, w')
      | (Panicked err, w') \<Rightarrow>
          (Returned,
           on_conn (serverErrorResponse err) (on_conn (Header_Set ''Connection:'' ''close'') w')))"

text \<open>
  \<open>rateLimit\<close>: when the limiter is enabled, the critical section decides; a rejected
  request gets the rate-limit response and \<open>next\<close> is not called.
\<close>

definition rateLimit :: "application \<Rightarrow> chain_handler \<Rightarrow> chain_handler" where
  "rateLimit app next r w =
     (let w0 = enter RateLimit w
      in if limiter_enabled (config app) then
           (let ip = RealIP r
            in case admit (config app) ip (arrival r) (registry w0) of
                 (ok, reg') \<Rightarrow>
                   (let w1 = w0\<lparr>registry := reg'\<rparr>
                    in if \<not> ok then (Returned, on_conn rateLimitExceededResponse w1)
                       else next r w1))
         else next r w0)"

definition authenticate :: "application \<Rightarrow> chain_handler \<Rightarrow> chain_handler" where
  "authenticate app next r w =
     (let w1 = on_conn (Header_Set ''Vary'' ''Authorization'') (enter Authenticate w);
          authorizationHeader = Get (Header r) ''Authorization''
      in if authorizationHeader = [] then next (contextSetUser r AnonymousUser) w1
         else
           (let headerParts = Split authorizationHeader (CHR '' '')
            in if length headerParts \<noteq> 2 \<or> headerParts ! 0 \<noteq> ''Bearer'' then
                 (Returned, on_conn invalidAuthenticationTokenResponse w1)
               else
                 (let token = headerParts ! 1
                  in if \<not> ValidateTokenPlaintext app token then
                       (Returned, on_conn invalidAuthenticationTokenResponse w1)
                     else
                       (let w2 = on_conn (\<lambda>c. c\<lparr>calls := calls c @
                                    [Call_GetForToken ScopeAuthentication token]\<rparr>) w1
                        in case GetForToken app ScopeAuthentication token of
                             Inl ErrRecordNotFound \<Rightarrow>
                               (Returned, on_conn invalidAuthenticationTokenResponse w2)
                           | Inl (ErrOther err) \<Rightarrow>
                               (Returned, on_conn (serverErrorResponse err) w2)
                           | Inr user \<Rightarrow> next (contextSetUser r (Authenticated user)) w2))))"

text \<open>
  \<open>enableCORS\<close>: the loop over the trusted origins stops at the first one equal to the
  request's origin, so its body runs once when the origin is in the list and not at all
  otherwise. A preflight request from a trusted origin is answered here with status 200.
\<close>

definition enableCORS :: "application \<Rightarrow> chain_handler \<Rightarrow> chain_handler" where
  "enableCORS app next r w =
     (let w1 = on_conn (Header_Set ''Vary'' ''Access-Control-Request-Method'')
                 (on_conn (Header_Set ''Vary'' ''Origin'') (enter EnableCORS w));
          origin = Get (Header r) ''Origin''
      in if origin \<noteq> [] \<and> origin \<in> set (cors_trustedOrigins (config app)) then
           (let w2 = on_conn (Header_Set ''Access-Control-Allow-Origin'' origin) w1
            in if Method r = ''OPTIONS'' \<and>
                  Get (Header r) ''Access-Control-Request-Method'' \<noteq> [] then
                 (Returned,
                  on_conn (WriteHeader 200)
                    (on_conn (Header_Set ''Access-Control-Max-Age'' ''60'')
                      (on_conn (Header_Set ''Access-Control-Allow-Headers''
                                  ''Authorization, Content-Type'')
                        (on_conn (Header_Set ''Access-Control-Allow-Methods''
                                    ''OPTIONS, PUT, PATCH, DELETE'') w2))))
               else next r w2)
         else next r w1)"

text \<open>
  \<open>metrics\<close>: one more request received, then \<open>httpsnoop.CaptureMetrics\<close> runs \<open>next\<close>; on
  the way back, one more response sent, the duration added, and the tally of the status
  raised (the first status written, 200 when none was). A panic of \<open>next\<close> passes through
  and skips the trailing accounting.
\<close>

definition metrics :: "chain_handler \<Rightarrow> chain_handler" where
  "metrics next r w =
     (let w1 = (enter Metrics w)\<lparr>totalRequestsReceived := totalRequestsReceived w + 1\<rparr>
      in case next r w1 of
           (Panicked err, w2) \<Rightarrow> (Panicked err, w2)
         | (Returned, w2) \<Rightarrow>
             (let code = (case w_code (conn w2) of None \<Rightarrow> 200 | Some c \<Rightarrow> c)
              in (Returned,
                  w2\<lparr>totalResponsesSent := totalResponsesSent w2 + 1,
                     totalProcessingTimeMicroseconds :=
                       totalProcessingTimeMicroseconds w2 + elapsed_us r,
                     totalResponsesSentbyStatus :=
                       (totalResponsesSentbyStatus w2)
                         (code := totalResponsesSentbyStatus w2 code + 1)\<rparr>)))"

text \<open>
  \<open>routes\<close> returns
  \<open>app.metrics(app.recoverPanic(app.enableCORS(app.rateLimit(app.authenticate(router)))))\<close>.
\<close>

definition routes :: "application \<Rightarrow> handler \<Rightarrow> chain_handler" where
  "routes app router =
     metrics (recoverPanic (enableCORS app (rateLimit app (authenticate app (dispatch router)))))"

definition pipeline_order :: "stage list" where
  "pipeline_order = [Metrics, RecoverPanic, EnableCORS, RateLimit, Authenticate, Router]"

text \<open>
  The ways a request stops before the router: enableCORS answers a preflight, the rate
  limiter rejects (\<open>admission_rejects\<close> is what the critical section decides on the
  registry of the world), or the credential does not resolve. \<open>resolve\<close> is the contract
  of section 4.3 of the spec, written along the branches of \<open>authenticate\<close>: what the
  value of the Authorization header resolves to.
\<close>

definition is_preflight :: "application \<Rightarrow> request \<Rightarrow> bool" where
  "is_preflight app r \<longleftrightarrow>
     Get (Header r) ''Origin'' \<noteq> [] \<and>
     Get (Header r) ''Origin'' \<in> set (cors_trustedOrigins (config app)) \<and>
     Method r = ''OPTIONS'' \<and> Get (Header r) ''Access-Control-Request-Method'' \<noteq> []"

definition admission_rejects :: "application \<Rightarrow> request \<Rightarrow> world \<Rightarrow> bool" where
  "admission_rejects app r w \<longleftrightarrow>
     limiter_enabled (config app) \<and>
     \<not> fst (admit (config app) (RealIP r) (arrival r) (registry w))"

datatype resolution =
    Resolved identity
  | InvalidCredential
  | ResolutionFailure string

definition resolve :: "application \<Rightarrow> string \<Rightarrow> resolution" where
  "resolve app authorizationHeader =
     (if authorizationHeader = [] then Resolved AnonymousUser
      else case Split authorizationHeader (CHR '' '') of
             [scheme, token] \<Rightarrow>
               if scheme \<noteq> ''Bearer'' \<or> \<not> ValidateTokenPlaintext app token
               then InvalidCredential
               else (case GetForToken app ScopeAuthentication token of
                       Inl ErrRecordNotFound \<Rightarrow> InvalidCredential
                     | Inl (ErrOther err) \<Rightarrow> ResolutionFailure err
                     | Inr user \<Rightarrow> Resolved (Authenticated user))
           | _ \<Rightarrow> InvalidCredential)"


section \<open>\<open>serve\<close>: the listener, the signal goroutine and the background tasks\<close>

text \<open>
  \<open>serve\<close> runs two threads of control: its own body, blocked in \<open>ListenAndServe\<close> and then
  on the channel \<open>shutdownError\<close>, and the goroutine that waits for a signal, calls
  \<open>srv.Shutdown\<close>, waits on the WaitGroup \<open>app.wg\<close> and sends on \<open>shutdownError\<close>. The
  state holds the place each of the two has reached, the buffer of the channel \<open>quit\<close>
  (capacity 1), the WaitGroup counter, whether \<open>Shutdown\<close> was called on the server, and
  the log. A step is one of the events below; the operating system, the HTTP server and
  the handlers that start background tasks choose which.
\<close>

datatype signal = SIGINT | SIGTERM | SIGQUIT | SIGKILL

datatype err = ErrServerClosed | ErrOther_serve string

text \<open>Where the signal goroutine is.\<close>

datatype sig_pc =
    AwaitSignal
  | InShutdown
  | SendErr err
  | WgWait
  | SendNil
  | SigDone

text \<open>
  Where the body of \<open>serve\<close> is: \<open>ServeReturned None\<close> is \<open>return nil\<close>, the outcome
  Completed; \<open>ServeReturned (Some e)\<close> is \<open>return err\<close>. \<open>ProcessKilled\<close> is the end of the
  process by a signal that \<open>signal.Notify\<close> was not asked to relay.
\<close>

datatype main_pc =
    InListenAndServe
  | RecvShutdownError
  | ServeReturned "err option"
  | ProcessKilled

datatype log_entry =
    StartingServer
  | CaughtSignal signal
  | CompletingBackgroundTasks
  | StoppedServer

record lifecycle =
  quit :: "signal list"
  sig_at :: sig_pc
  main_at :: main_pc
  wg :: nat
  shutdown_called :: nat
  logged :: "log_entry list"

text \<open>
  \<open>serve\<close> up to the call of \<open>ListenAndServe\<close>: the goroutine is started and blocks on
  \<open>quit\<close>, the start is logged, no background task is registered.
\<close>

definition serve_init :: lifecycle where
  "serve_init =
     \<lparr>quit = [], sig_at = AwaitSignal, main_at = InListenAndServe, wg = 0,
      shutdown_called = 0, logged = [StartingServer]\<rparr>"

datatype serve_event =
    Deliver signal
  | QuitRecv
  | ShutdownReturns "err option"
  | WaitReturns
  | Handoff
  | ListenReturns err
  | TaskSpawn
  | TaskDone

definition recognized :: "signal \<Rightarrow> bool" where
  "recognized sg \<longleftrightarrow> sg = SIGINT \<or> sg = SIGTERM"

definition running :: "lifecycle \<Rightarrow> bool" where
  "running s \<longleftrightarrow> main_at s = InListenAndServe \<or> main_at s = RecvShutdownError"

text \<open>
  One step; \<open>None\<close> when the event cannot happen in the state. Nothing happens once
  \<open>serve\<close> has returned (main exits) or the process was killed.
  \<^item> \<open>Deliver\<close>: \<open>signal.Notify(quit, SIGINT, SIGTERM)\<close> relays the two signals without
    blocking, so a signal that finds the buffer full is dropped; any other signal keeps
    its default behaviour, which for the signals of the table in server.go ends the
    process.
  \<^item> \<open>QuitRecv\<close>: \<open>s := <-quit\<close>, the log entry, and the call of \<open>srv.Shutdown\<close>.
  \<^item> \<open>ShutdownReturns\<close>: \<open>Shutdown\<close> returns; with an error the goroutine goes on to send
    it, without one it logs and goes on to \<open>app.wg.Wait()\<close>.
  \<^item> \<open>WaitReturns\<close>: \<open>Wait\<close> returns, which it does only when the counter is zero.
  \<^item> \<open>Handoff\<close>: \<open>shutdownError\<close> is unbuffered, so a send and the receive of \<open>serve\<close>
    happen together; \<open>serve\<close> returns the error received, or logs and returns nil.
  \<^item> \<open>ListenReturns\<close>: \<open>ListenAndServe\<close> returns \<open>ErrServerClosed\<close> once \<open>Shutdown\<close> was
    called, or any other error at any time, which \<open>serve\<close> returns at once.
  \<^item> \<open>TaskSpawn\<close>, \<open>TaskDone\<close>: a handler registers a background task with the WaitGroup,
    a background task finishes.
\<close>

definition step :: "serve_event \<Rightarrow> lifecycle \<Rightarrow> lifecycle option" where
  "step e s =
     (if \<not> running s then None
      else case e of
        Deliver sg \<Rightarrow>
          if recognized sg then
            Some (if length (quit s) < 1 then s\<lparr>quit := quit s @ [sg]\<rparr> else s)
          else Some (s\<lparr>main_at := ProcessKilled\<rparr>)
      | QuitRecv \<Rightarrow>
          (case (sig_at s, quit s) of
             (AwaitSignal, sg # q) \<Rightarrow>
               Some (s\<lparr>quit := q, sig_at := InShutdown,
                       shutdown_called := shutdown_called s + 1,
                       logged := logged s @ [CaughtSignal sg]\<rparr>)
           | _ \<Rightarrow> None)
      | ShutdownReturns r \<Rightarrow>
          (if sig_at s = InShutdown then
             (case r of
                Some x \<Rightarrow> Some (s\<lparr>sig_at := SendErr x\<rparr>)
              | None \<Rightarrow>
                  Some (s\<lparr>sig_at := WgWait,
                          logged := logged s @ [CompletingBackgroundTasks]\<rparr>))
           else None)
      | WaitReturns \<Rightarrow>
          (if sig_at s = WgWait \<and> wg s = 0 then Some (s\<lparr>sig_at := SendNil\<rparr>) else None)
      | Handoff \<Rightarrow>
          (if main_at s = RecvShutdownError then
             (case sig_at s of
                SendErr x \<Rightarrow>
                  Some (s\<lparr>main_at := ServeReturned (Some x), sig_at := WgWait,
                          logged := logged s @ [CompletingBackgroundTasks]\<rparr>)
              | SendNil \<Rightarrow>
                  Some (s\<lparr>main_at := ServeReturned None, sig_at := SigDone,
                          logged := logged s @ [StoppedServer]\<rparr>)
              | _ \<Rightarrow> None)
           else None)
      | ListenReturns x \<Rightarrow>
          (if main_at s = InListenAndServe then
             (if x = ErrServerClosed then
                (if 0 < shutdown_called s then Some (s\<lparr>main_at := RecvShutdownError\<rparr>)
                 else None)
              else Some (s\<lparr>main_at := ServeReturned (Some x)\<rparr>))
           else None)
      | TaskSpawn \<Rightarrow> Some (s\<lparr>wg := wg s + 1\<rparr>)
      | TaskDone \<Rightarrow> (if 0 < wg s then Some (s\<lparr>wg := wg s - 1\<rparr>) else None))"

fun exec :: "serve_event list \<Rightarrow> lifecycle \<Rightarrow> lifecycle option" where
  "exec [] s = Some s"
| "exec (e # es) s = (case step e s of None \<Rightarrow> None | Some s' \<Rightarrow> exec es s')"

text \<open>The first signal of a run that \<open>signal.Notify\<close> relays.\<close>

fun first_recognized :: "serve_event list \<Rightarrow> signal option" where
  "first_recognized [] = None"
| "first_recognized (Deliver sg # es) = (if recognized sg then Some sg else first_recognized es)"
| "first_recognized (e # es) = first_recognized es"

text \<open>
  The state of the shutdown: everything but the buffer of \<open>quit\<close>, which nothing reads
  once the goroutine has taken its one signal from it.
\<close>

definition shutdown_state ::
    "lifecycle \<Rightarrow> sig_pc \<times> main_pc \<times> nat \<times> nat \<times> log_entry list" where
  "shutdown_state s = (sig_at s, main_at s, wg s, shutdown_called s, logged s)"

text \<open>The signals the log says were caught, and the relation between two states that
  differ at most in a buffer of \<open>quit\<close> that will not be read again.\<close>

fun caught_signals :: "log_entry list \<Rightarrow> signal list" where
  "caught_signals [] = []"
| "caught_signals (CaughtSignal sg # es) = sg # caught_signals es"
| "caught_signals (e # es) = caught_signals es"

definition same_shutdown :: "lifecycle \<Rightarrow> lifecycle \<Rightarrow> bool" where
  "same_shutdown s t \<longleftrightarrow>
     shutdown_state s = shutdown_state t \<and> (sig_at s = AwaitSignal \<longrightarrow> quit s = quit t)"

text \<open>
  A run in which \<open>app.wg.Wait()\<close> has returned: at some point of it the goroutine was in
  \<open>Wait\<close>, the counter was zero, and the next event was the return of \<open>Wait\<close>.
\<close>

definition waited_at_zero :: "serve_event list \<Rightarrow> bool" where
  "waited_at_zero evs \<longleftrightarrow>
     (\<exists>pre post s1. evs = pre @ WaitReturns # post \<and> exec pre serve_init = Some s1 \<and>
        sig_at s1 = WgWait \<and> wg s1 = 0)"

text \<open>What holds of the state a run has reached from the start of \<open>serve\<close>.\<close>

definition reached_ok :: "serve_event list \<Rightarrow> lifecycle \<Rightarrow> bool" where
  "reached_ok evs s \<longleftrightarrow>
     (sig_at s = AwaitSignal \<longrightarrow>
        shutdown_called s = 0 \<and> caught_signals (logged s) = [] \<and>
        quit s = (case first_recognized evs of None \<Rightarrow> [] | Some sg \<Rightarrow> [sg])) \<and>
     (sig_at s \<noteq> AwaitSignal \<longrightarrow>
        shutdown_called s = 1 \<and>
        (\<exists>sg. first_recognized evs = Some sg \<and> caught_signals (logged s) = [sg])) \<and>
     (main_at s = ServeReturned None \<longrightarrow> sig_at s = SigDone) \<and>
     (sig_at s = SendNil \<or> sig_at s = SigDone \<longrightarrow> waited_at_zero evs)"

text \<open>
  The parts of the stages that the statement of the order of the chain names:
  \<^item> \<open>cors_headers\<close>: the headers \<open>enableCORS\<close> sets before it answers or calls \<open>next\<close>;
  \<^item> \<open>preflight_answer\<close>: the answer of \<open>enableCORS\<close> to a preflight request;
  \<^item> \<open>storage_calls\<close>: the call of \<open>Users.GetForToken\<close> that \<open>authenticate\<close> makes for a
    value of the Authorization header, none when the value is empty, malformed or holds
    a token that fails validation;
  \<^item> \<open>contained\<close>: what the deferred function of \<open>recoverPanic\<close> makes of the outcome of
    the handler it wraps.
\<close>

definition cors_headers :: "application \<Rightarrow> request \<Rightarrow> conn_state \<Rightarrow> conn_state" where
  "cors_headers app r c =
     (let c1 = Header_Set ''Vary'' ''Access-Control-Request-Method''
                 (Header_Set ''Vary'' ''Origin'' c);
          origin = Get (Header r) ''Origin''
      in if origin \<noteq> [] \<and> origin \<in> set (cors_trustedOrigins (config app))
         then Header_Set ''Access-Control-Allow-Origin'' origin c1
         else c1)"

definition preflight_answer :: "conn_state \<Rightarrow> conn_state" where
  "preflight_answer c =
     WriteHeader 200
       (Header_Set ''Access-Control-Max-Age'' ''60''
         (Header_Set ''Access-Control-Allow-Headers'' ''Authorization, Content-Type''
           (Header_Set ''Access-Control-Allow-Methods'' ''OPTIONS, PUT, PATCH, DELETE'' c)))"

definition storage_calls :: "application \<Rightarrow> string \<Rightarrow> call list" where
  "storage_calls app authorizationHeader =
     (if authorizationHeader = [] then []
      else case Split authorizationHeader (CHR '' '') of
             [scheme, token] \<Rightarrow>
               if scheme = ''Bearer'' \<and> ValidateTokenPlaintext app token
               then [Call_GetForToken ScopeAuthentication token]
               else []
           | _ \<Rightarrow> [])"

fun contained :: "outcome \<times> conn_state \<Rightarrow> conn_state" where
  "contained (Returned, c) = c"
| "contained (Panicked err, c) =
     serverErrorResponse err (Header_Set ''Connection:'' ''close'' c)"


section \<open>Concrete inputs\<close>

text \<open>
  An application with the default limiter settings of main (2 requests per second, a
  burst of 4, enabled), one trusted origin, one user known to storage by one token,
  and tokens held valid when they are 26 bytes long.
\<close>

definition example_app :: application where
  "example_app =
     \<lparr>config = \<lparr>limiter_rps = 2, limiter_burst = 4, limiter_enabled = True,
                cors_trustedOrigins = [''https://example.com'']\<rparr>,
      GetForToken = (\<lambda>sc tok.
        if sc = ScopeAuthentication \<and> tok = ''ABCDEFGHIJKLMNOPQRSTUVWXYZ''
        then Inr \<lparr>ID = 7, Activated = True\<rparr> else Inl ErrRecordNotFound),
      GetAllForUser = (\<lambda>uid. if uid = 7 then Inr [''movies:read''] else Inr []),
      ValidateTokenPlaintext = (\<lambda>tok. length tok = 26)\<rparr>"

definition new_conn :: conn_state where
  "new_conn = \<lparr>w_header = Map.empty, w_code = None, w_body = [], errlog = [], calls = []\<rparr>"

definition new_world :: world where
  "new_world =
     \<lparr>conn = new_conn, registry = no_clients, totalRequestsReceived = 0,
      totalResponsesSent = 0, totalProcessingTimeMicroseconds = 0,
      totalResponsesSentbyStatus = (\<lambda>code. 0), trace = []\<rparr>"

text \<open>A GET request with the given headers, from the address 10.0.0.1.\<close>

definition get_request :: "(string \<times> string list) list \<Rightarrow> request" where
  "get_request hs =
     \<lparr>Method = ''GET'', Header = map_of hs, RealIP = ''10.0.0.1'', ctx_user = None,
      arrival = 0, elapsed_us = 150\<rparr>"

definition ok_handler :: handler where
  "ok_handler r c = (Returned, Write (OtherBody ''ok'') c)"

definition panicking_handler :: handler where
  "panicking_handler r c = (Panicked ''runtime error'', c)"

text \<open>The world after the client 10.0.0.1 has used up its burst at clock reading 0.\<close>

definition exhausted_world :: world where
  "exhausted_world =
     new_world\<lparr>registry :=
       \<lparr>clients = [''10.0.0.1'' \<mapsto> 0],
        heap = [\<lparr>limiter = \<lparr>capacity = 4, refillRatePerSecond = 2, tokens = 0, lastRefill = 0\<rparr>,
                 lastSeen = 0\<rparr>]\<rparr>\<rparr>"

text \<open>A handler that writes which identity the request context holds.\<close>

definition whoami_handler :: handler where
  "whoami_handler r c =
     (Returned,
      Write (OtherBody (case ctx_user r of
                          None \<Rightarrow> ''none''
                        | Some AnonymousUser \<Rightarrow> ''anonymous''
                        | Some (Authenticated u) \<Rightarrow> ''authenticated'')) c)"


section \<open>The bucket in exact arithmetic\<close>

lemma seconds_mono: "a \<le> b \<Longrightarrow> seconds a \<le> seconds b"
  by (simp add: seconds_def second_def divide_right_mono)

lemma seconds_nonneg: "0 \<le> d \<Longrightarrow> 0 \<le> seconds d"
  by (simp add: seconds_def second_def)

lemma seconds_diff: "seconds (a - b) = seconds a - seconds b"
  by (simp add: seconds_def diff_divide_distrib)

lemma refill_bounds:
  assumes "limiter_inv l" "lastRefill l \<le> now"
  shows "0 \<le> refill now l" "refill now l \<le> of_int (capacity l)"
    "refill now l \<le> tokens l + refillRatePerSecond l * seconds (now - lastRefill l)"
proof -
  have "0 \<le> seconds (now - lastRefill l)" using assms(2) by (simp add: seconds_nonneg)
  then have "0 \<le> refillRatePerSecond l * seconds (now - lastRefill l)"
    using assms(1) by (simp add: limiter_inv_def)
  then show "0 \<le> refill now l" using assms(1) by (simp add: refill_def limiter_inv_def)
  show "refill now l \<le> of_int (capacity l)" by (simp add: refill_def)
  show "refill now l \<le> tokens l + refillRatePerSecond l * seconds (now - lastRefill l)"
    by (simp add: refill_def)
qed

lemma allow_inv:
  assumes "limiter_inv l" "lastRefill l \<le> now" "allow now l = (ok, l')"
  shows "limiter_inv l'" "lastRefill l' = now"
    "capacity l' = capacity l" "refillRatePerSecond l' = refillRatePerSecond l"
    "tokens l' = refill now l - (if ok then 1 else 0)"
  using assms refill_bounds[OF assms(1,2)]
  by (auto simp: allow_def Let_def limiter_inv_def split: if_splits)

lemma admitted_in_late:
  assumes "\<forall>t\<in>set ts. a + T < t"
  shows "admitted_in a T (allows l ts) = 0"
  using assms
  by (induction ts arbitrary: l) (auto simp: admitted_in_def split: prod.splits)

lemma admitted_in_window:
  assumes "limiter_inv l" "sorted ts" "\<forall>t\<in>set ts. lastRefill l \<le> t" "a \<le> lastRefill l"
    "lastRefill l \<le> a + T"
  shows "of_nat (admitted_in a T (allows l ts))
           \<le> tokens l + refillRatePerSecond l * seconds (a + T - lastRefill l)"
  using assms
proof (induction ts arbitrary: l)
  case Nil
  have "0 \<le> seconds (a + T - lastRefill l)" using Nil by (simp add: seconds_nonneg)
  then show ?case using Nil by (simp add: admitted_in_def limiter_inv_def)
next
  case (Cons t ts)
  obtain ok l' where al: "allow t l = (ok, l')" by (cases "allow t l")
  have le: "lastRefill l \<le> t" using Cons.prems by simp
  note inv' = allow_inv[OF Cons.prems(1) le al]
  note rb = refill_bounds[OF Cons.prems(1) le]
  have R0: "0 \<le> refillRatePerSecond l" using Cons.prems(1) by (simp add: limiter_inv_def)
  show ?case
  proof (cases "t \<le> a + T")
    case True
    have "of_nat (admitted_in a T (allows l' ts))
            \<le> tokens l' + refillRatePerSecond l' * seconds (a + T - lastRefill l')"
      using Cons.prems inv' True by (intro Cons.IH) auto
    then have ih: "of_nat (admitted_in a T (allows l' ts))
            \<le> refill t l - (if ok then 1 else 0) + refillRatePerSecond l * seconds (a + T - t)"
      using inv' by simp
    have cnt: "(of_nat (admitted_in a T (allows l (t # ts))) :: rat)
            = (if ok then 1 else 0) + of_nat (admitted_in a T (allows l' ts))"
      using al True Cons.prems le by (auto simp: admitted_in_def)
    have "seconds (a + T - lastRefill l) = seconds (t - lastRefill l) + seconds (a + T - t)"
      by (simp add: seconds_diff)
    then have "refillRatePerSecond l * seconds (a + T - lastRefill l)
        = refillRatePerSecond l * seconds (t - lastRefill l)
          + refillRatePerSecond l * seconds (a + T - t)"
      by (simp add: algebra_simps)
    then show ?thesis using ih cnt rb(3) by (auto split: if_splits)
  next
    case False
    then have "\<forall>u\<in>set (t # ts). a + T < u" using Cons.prems(2) by auto
    then have "admitted_in a T (allows l (t # ts)) = 0" by (rule admitted_in_late)
    moreover have "0 \<le> seconds (a + T - lastRefill l)"
      using Cons.prems by (simp add: seconds_nonneg)
    then have "0 \<le> refillRatePerSecond l * seconds (a + T - lastRefill l)" using R0 by simp
    ultimately show ?thesis using Cons.prems(1) by (simp add: limiter_inv_def)
  qed
qed

lemma admitted_in_any:
  assumes "limiter_inv l" "sorted ts" "\<forall>t\<in>set ts. lastRefill l \<le> t" "0 \<le> T"
  shows "of_nat (admitted_in a T (allows l ts))
           \<le> of_int (capacity l) + refillRatePerSecond l * seconds T"
  using assms
proof (induction ts arbitrary: l)
  case Nil
  have "0 \<le> seconds T" using Nil by (simp add: seconds_nonneg)
  then have "0 \<le> refillRatePerSecond l * seconds T" using Nil(1) by (simp add: limiter_inv_def)
  moreover have "(0::rat) \<le> of_int (capacity l)" using Nil(1) by (simp add: limiter_inv_def)
  ultimately show ?case by (simp add: admitted_in_def)
next
  case (Cons t ts)
  obtain ok l' where al: "allow t l = (ok, l')" by (cases "allow t l")
  have le: "lastRefill l \<le> t" using Cons.prems by simp
  note inv' = allow_inv[OF Cons.prems(1) le al]
  note rb = refill_bounds[OF Cons.prems(1) le]
  have R0: "0 \<le> refillRatePerSecond l" using Cons.prems(1) by (simp add: limiter_inv_def)
  have ih_prems: "sorted ts" "\<forall>u\<in>set ts. lastRefill l' \<le> u"
    using Cons.prems inv' by auto
  show ?case
  proof (cases "a \<le> t")
    case False
    then have "admitted_in a T (allows l (t # ts)) = admitted_in a T (allows l' ts)"
      using al by (simp add: admitted_in_def)
    moreover have "of_nat (admitted_in a T (allows l' ts))
           \<le> of_int (capacity l') + refillRatePerSecond l' * seconds T"
      using inv'(1) ih_prems Cons.prems(4) by (rule Cons.IH)
    ultimately show ?thesis using inv' by simp
  next
    case True
    show ?thesis
    proof (cases "t \<le> a + T")
      case False
      then have "\<forall>u\<in>set (t # ts). a + T < u" using Cons.prems(2) by auto
      then have "admitted_in a T (allows l (t # ts)) = 0" by (rule admitted_in_late)
      moreover have "0 \<le> seconds T" using Cons.prems by (simp add: seconds_nonneg)
      then have "0 \<le> refillRatePerSecond l * seconds T" using R0 by simp
      moreover have "(0::rat) \<le> of_int (capacity l)"
        using Cons.prems(1) by (simp add: limiter_inv_def)
      ultimately show ?thesis by simp
    next
      case inwin: True
      have "of_nat (admitted_in a T (allows l' ts))
            \<le> tokens l' + refillRatePerSecond l' * seconds (a + T - lastRefill l')"
        using inv'(1) ih_prems True inwin inv'(2) by (intro admitted_in_window) auto
      then have w: "of_nat (admitted_in a T (allows l' ts))
            \<le> refill t l - (if ok then 1 else 0) + refillRatePerSecond l * seconds (a + T - t)"
        using inv' by simp
      have cnt: "(of_nat (admitted_in a T (allows l (t # ts))) :: rat)
            = (if ok then 1 else 0) + of_nat (admitted_in a T (allows l' ts))"
        using al True inwin by (auto simp: admitted_in_def)
      have "seconds (a + T - t) \<le> seconds T" using True by (intro seconds_mono) simp
      then have "refillRatePerSecond l * seconds (a + T - t) \<le> refillRatePerSecond l * seconds T"
        using R0 by (rule mult_left_mono)
      then show ?thesis using w cnt rb(2) by (auto split: if_splits)
    qed
  qed
qed

lemma NewLimiter_inv: "0 \<le> r \<Longrightarrow> 0 \<le> b \<Longrightarrow> limiter_inv (NewLimiter r b)"
  by (simp add: limiter_inv_def NewLimiter_def)

text \<open>
  Section 8 of the spec: a limiter of capacity 4 called five times at once answers
  true, true, true, true, false.
\<close>

lemma burst_of_four:
  "map snd (allows (NewLimiter 2 4) [0, 0, 0, 0, 0]) = [True, True, True, True, False]"
  by (simp add: allow_def refill_def NewLimiter_def seconds_def Let_def)

text \<open>
  The bound of burst plus rate times window, for the bucket in exact arithmetic: calls
  of \<open>allow\<close> on one limiter of capacity \<open>C\<close> and rate \<open>R\<close> tokens per second, made at the
  clock readings \<open>ts\<close> (in the order of the calls, so the readings do not decrease),
  return true at most \<open>C + R * T\<close> times in any window \<open>[a, a + T]\<close> of clock time, with
  \<open>T\<close> taken in seconds. This is a statement about rational token counts only. It says
  nothing of a bucket that keeps its tokens in float64 and its times in whole
  nanoseconds, where a call can be admitted on a token count that rounds up to 1.
\<close>

lemma exact_bucket_window_bound:
  assumes "0 \<le> R" "0 \<le> C" "sorted ts" "\<forall>t\<in>set ts. 0 \<le> t" "0 \<le> T"
  shows "of_nat (admitted_in a T (allows (NewLimiter R C) ts)) \<le> of_int C + R * seconds T"
proof -
  have "limiter_inv (NewLimiter R C)" using assms(1,2) by (rule NewLimiter_inv)
  moreover have "\<forall>t\<in>set ts. lastRefill (NewLimiter R C) \<le> t"
    using assms(4) by (simp add: NewLimiter_def)
  ultimately have "of_nat (admitted_in a T (allows (NewLimiter R C) ts))
      \<le> of_int (capacity (NewLimiter R C)) + refillRatePerSecond (NewLimiter R C) * seconds T"
    using assms(3,5) by (intro admitted_in_any)
  then show ?thesis by (simp add: NewLimiter_def)
qed


section \<open>The registry: one struct per client\<close>

lemma admit_known:
  assumes "clients reg ip = Some p" "p < length (heap reg)"
    "allow now (limiter (heap reg ! p)) = (ok, l')"
  shows "admit cfg ip now reg =
           (ok, reg\<lparr>heap := (heap reg)[p := \<lparr>limiter = l', lastSeen = now\<rparr>]\<rparr>)"
proof -
  have eq: "(heap reg ! p)\<lparr>lastSeen := now, limiter := l'\<rparr> = \<lparr>limiter = l', lastSeen = now\<rparr>"
    by (cases "heap reg ! p") simp
  show ?thesis using assms by (simp add: admit_def Let_def eq)
qed

lemma admit_new:
  assumes "clients reg ip = None"
    "allow now (NewLimiter (limiter_rps cfg) (limiter_burst cfg)) = (ok, l')"
  shows "admit cfg ip now reg =
           (ok, reg\<lparr>clients := (clients reg)(ip \<mapsto> length (heap reg)),
                    heap := heap reg @ [\<lparr>limiter = l', lastSeen = now\<rparr>]\<rparr>)"
  using assms by (simp add: admit_def Let_def)

text \<open>The struct a request works on: the one in the map, or a new one.\<close>

lemma admit_entry:
  assumes "registry_ok reg"
  shows "fst (admit cfg ip now reg) =
           fst (allow now (case entry reg ip of
                             None \<Rightarrow> NewLimiter (limiter_rps cfg) (limiter_burst cfg)
                           | Some c \<Rightarrow> limiter c))"
    and "entry (snd (admit cfg ip now reg)) ip =
           Some \<lparr>limiter = snd (allow now (case entry reg ip of
                             None \<Rightarrow> NewLimiter (limiter_rps cfg) (limiter_burst cfg)
                           | Some c \<Rightarrow> limiter c)),
                 lastSeen = now\<rparr>"
proof -
  show "fst (admit cfg ip now reg) =
           fst (allow now (case entry reg ip of
                             None \<Rightarrow> NewLimiter (limiter_rps cfg) (limiter_burst cfg)
                           | Some c \<Rightarrow> limiter c))"
  proof (cases "clients reg ip")
    case None
    then show ?thesis
      by (cases "allow now (NewLimiter (limiter_rps cfg) (limiter_burst cfg))")
         (simp add: admit_new entry_def)
  next
    case (Some p)
    then have "p < length (heap reg)" using assms by (auto simp: registry_ok_def)
    with Some show ?thesis
      by (cases "allow now (limiter (heap reg ! p))") (simp add: admit_known entry_def)
  qed
  show "entry (snd (admit cfg ip now reg)) ip =
           Some \<lparr>limiter = snd (allow now (case entry reg ip of
                             None \<Rightarrow> NewLimiter (limiter_rps cfg) (limiter_burst cfg)
                           | Some c \<Rightarrow> limiter c)),
                 lastSeen = now\<rparr>"
  proof (cases "clients reg ip")
    case None
    then show ?thesis
      by (cases "allow now (NewLimiter (limiter_rps cfg) (limiter_burst cfg))")
         (simp add: admit_new entry_def)
  next
    case (Some p)
    then have "p < length (heap reg)" using assms by (auto simp: registry_ok_def)
    with Some show ?thesis
      by (cases "allow now (limiter (heap reg ! p))") (simp add: admit_known entry_def)
  qed
qed

lemma admit_entry_other:
  assumes "registry_ok reg" "ip' \<noteq> ip"
  shows "entry (snd (admit cfg ip now reg)) ip' = entry reg ip'"
proof (cases "clients reg ip")
  case None
  obtain ok l' where al: "allow now (NewLimiter (limiter_rps cfg) (limiter_burst cfg)) = (ok, l')"
    by (cases "allow now (NewLimiter (limiter_rps cfg) (limiter_burst cfg))")
  show ?thesis
  proof (cases "clients reg ip'")
    case N': None
    then show ?thesis using assms(2) by (simp add: admit_new[OF None al] entry_def)
  next
    case (Some q)
    then have "q < length (heap reg)" using assms(1) by (auto simp: registry_ok_def)
    then show ?thesis using Some assms(2)
      by (simp add: admit_new[OF None al] entry_def nth_append)
  qed
next
  case (Some p)
  then have p: "p < length (heap reg)" using assms(1) by (auto simp: registry_ok_def)
  obtain ok l' where al: "allow now (limiter (heap reg ! p)) = (ok, l')"
    by (cases "allow now (limiter (heap reg ! p))")
  show ?thesis
  proof (cases "clients reg ip'")
    case None
    then show ?thesis by (simp add: admit_known[OF Some p al] entry_def)
  next
    case S': (Some q)
    then have "q \<noteq> p" using Some assms by (auto simp: registry_ok_def)
    then show ?thesis using S' by (simp add: admit_known[OF Some p al] entry_def)
  qed
qed

lemma admit_ok:
  assumes "registry_ok reg"
  shows "registry_ok (snd (admit cfg ip now reg))"
proof (cases "clients reg ip")
  case None
  obtain ok l' where al: "allow now (NewLimiter (limiter_rps cfg) (limiter_burst cfg)) = (ok, l')"
    by (cases "allow now (NewLimiter (limiter_rps cfg) (limiter_burst cfg))")
  show ?thesis using assms
    unfolding admit_new[OF None al] registry_ok_def
    by (auto simp: less_Suc_eq split: if_splits)
next
  case (Some p)
  then have p: "p < length (heap reg)" using assms(1) by (auto simp: registry_ok_def)
  obtain ok l' where al: "allow now (limiter (heap reg ! p)) = (ok, l')"
    by (cases "allow now (limiter (heap reg ! p))")
  show ?thesis using assms
    unfolding admit_known[OF Some p al] registry_ok_def by simp
qed

lemma admit_keeps:
  assumes "clients reg ip' = Some q"
  shows "clients (snd (admit cfg ip now reg)) ip' = Some q"
  using assms
  by (auto simp: admit_def Let_def split: option.splits prod.splits)

lemma sweep_ok: "registry_ok reg \<Longrightarrow> registry_ok (sweep now reg)"
  unfolding registry_ok_def sweep_def
  by (auto split: option.splits if_splits)

lemma sweep_entry:
  "entry (sweep now reg) ip =
     (case entry reg ip of
        None \<Rightarrow> None
      | Some c \<Rightarrow> if now - lastSeen c > 3 * minute then None else Some c)"
  by (auto simp: entry_def sweep_def split: option.splits)

lemma no_clients_ok: "registry_ok no_clients"
  by (simp add: registry_ok_def no_clients_def)

lemma decisions_without:
  assumes "a \<noteq> b" "registry_ok reg" "registry_ok reg'"
    "\<forall>ip. ip \<noteq> a \<longrightarrow> entry reg ip = entry reg' ip"
  shows "decisions cfg b evs reg =
         decisions cfg b (filter (\<lambda>e. \<not> from_client a e) evs) reg'"
  using assms(2-)
proof (induction evs arbitrary: reg reg')
  case Nil
  show ?case by simp
next
  case (Cons e evs)
  show ?case
  proof (cases e)
    case (Tick now)
    have "\<forall>ip. ip \<noteq> a \<longrightarrow> entry (sweep now reg) ip = entry (sweep now reg') ip"
      using Cons.prems(3) by (simp add: sweep_entry)
    then have "decisions cfg b evs (sweep now reg) =
         decisions cfg b (filter (\<lambda>e. \<not> from_client a e) evs) (sweep now reg')"
      using Cons.prems by (intro Cons.IH sweep_ok)
    then show ?thesis using Tick by simp
  next
    case (Request ip now)
    show ?thesis
    proof (cases "ip = a")
      case True
      have "\<forall>ip'. ip' \<noteq> a \<longrightarrow> entry (snd (admit cfg a now reg)) ip' = entry reg' ip'"
        using Cons.prems by (simp add: admit_entry_other)
      then have "decisions cfg b evs (snd (admit cfg a now reg)) =
         decisions cfg b (filter (\<lambda>e. \<not> from_client a e) evs) reg'"
        using Cons.prems by (intro Cons.IH admit_ok)
      then show ?thesis using Request True assms(1)
        by (cases "admit cfg a now reg") simp
    next
      case False
      have same: "entry reg ip = entry reg' ip" using False Cons.prems(3) by simp
      have d: "fst (admit cfg ip now reg) = fst (admit cfg ip now reg')"
        using Cons.prems same by (simp add: admit_entry(1))
      have "\<forall>ip'. ip' \<noteq> a \<longrightarrow>
          entry (snd (admit cfg ip now reg)) ip' = entry (snd (admit cfg ip now reg')) ip'"
      proof (intro allI impI)
        fix ip' assume "ip' \<noteq> a"
        show "entry (snd (admit cfg ip now reg)) ip' = entry (snd (admit cfg ip now reg')) ip'"
        proof (cases "ip' = ip")
          case True
          then show ?thesis using Cons.prems same by (simp add: admit_entry(2))
        next
          case F: False
          then show ?thesis using Cons.prems \<open>ip' \<noteq> a\<close> by (simp add: admit_entry_other)
        qed
      qed
      then have "decisions cfg b evs (snd (admit cfg ip now reg)) =
         decisions cfg b (filter (\<lambda>e. \<not> from_client a e) evs) (snd (admit cfg ip now reg'))"
        using Cons.prems by (intro Cons.IH admit_ok)
      then show ?thesis using Request False d
        by (cases "admit cfg ip now reg"; cases "admit cfg ip now reg'") simp
    qed
  qed
qed

text \<open>
  C7. For two distinct client addresses \<open>a\<close> and \<open>b\<close>: the decisions the registry gives
  to the requests of \<open>b\<close> are the same in any two histories that differ only in the
  requests of \<open>a\<close>, whatever those are and however many (in particular with and
  without requests that empty the bucket of \<open>a\<close>). The histories start from the same
  registry and may hold ticks of the sweep and requests of other clients.
\<close>

theorem distinct_clients_independent:
  assumes "a \<noteq> b" "registry_ok reg"
    "filter (\<lambda>e. \<not> from_client a e) evs = filter (\<lambda>e. \<not> from_client a e) evs'"
  shows "decisions cfg b evs reg = decisions cfg b evs' reg"
proof -
  have "decisions cfg b evs reg = decisions cfg b (filter (\<lambda>e. \<not> from_client a e) evs) reg"
    using assms(1,2) by (intro decisions_without) auto
  moreover have "decisions cfg b evs' reg =
      decisions cfg b (filter (\<lambda>e. \<not> from_client a e) evs') reg"
    using assms(1,2) by (intro decisions_without) auto
  ultimately show ?thesis using assms(3) by simp
qed

theorem distinct_clients_independent_witness:
  "''10.0.0.1'' \<noteq> ''10.0.0.2'' \<and>
   decisions (config example_app) ''10.0.0.2''
     [Request ''10.0.0.1'' 0, Request ''10.0.0.1'' 0, Request ''10.0.0.1'' 0,
      Request ''10.0.0.1'' 0, Request ''10.0.0.1'' 0, Request ''10.0.0.2'' 0] no_clients =
   decisions (config example_app) ''10.0.0.2'' [Request ''10.0.0.2'' 0] no_clients \<and>
   decisions (config example_app) ''10.0.0.1''
     [Request ''10.0.0.1'' 0, Request ''10.0.0.1'' 0, Request ''10.0.0.1'' 0,
      Request ''10.0.0.1'' 0, Request ''10.0.0.1'' 0] no_clients =
     [True, True, True, True, False]"
proof -
  have ne: "''10.0.0.1'' \<noteq> ''10.0.0.2''" by simp
  have f: "filter (\<lambda>e. \<not> from_client ''10.0.0.1'' e)
       [Request ''10.0.0.1'' 0, Request ''10.0.0.1'' 0, Request ''10.0.0.1'' 0,
        Request ''10.0.0.1'' 0, Request ''10.0.0.1'' 0, Request ''10.0.0.2'' 0] =
     filter (\<lambda>e. \<not> from_client ''10.0.0.1'' e) [Request ''10.0.0.2'' 0]"
    by simp
  have a: "decisions (config example_app) ''10.0.0.2''
     [Request ''10.0.0.1'' 0, Request ''10.0.0.1'' 0, Request ''10.0.0.1'' 0,
      Request ''10.0.0.1'' 0, Request ''10.0.0.1'' 0, Request ''10.0.0.2'' 0] no_clients =
   decisions (config example_app) ''10.0.0.2'' [Request ''10.0.0.2'' 0] no_clients"
    using distinct_clients_independent[OF ne no_clients_ok f] .
  have b: "decisions (config example_app) ''10.0.0.1''
     [Request ''10.0.0.1'' 0, Request ''10.0.0.1'' 0, Request ''10.0.0.1'' 0,
      Request ''10.0.0.1'' 0, Request ''10.0.0.1'' 0] no_clients =
     [True, True, True, True, False]"
    by code_simp
  show ?thesis using ne a b by blast
qed


section \<open>The chain: which stages run, and what each leaves behind\<close>

lemma enter_simps [simp]:
  "trace (enter st w) = trace w @ [st]"
  "conn (enter st w) = conn w"
  "registry (enter st w) = registry w"
  "totalRequestsReceived (enter st w) = totalRequestsReceived w"
  "totalResponsesSent (enter st w) = totalResponsesSent w"
  "totalProcessingTimeMicroseconds (enter st w) = totalProcessingTimeMicroseconds w"
  "totalResponsesSentbyStatus (enter st w) = totalResponsesSentbyStatus w"
  by (simp_all add: enter_def)

lemma on_conn_simps [simp]:
  "trace (on_conn f w) = trace w"
  "conn (on_conn f w) = f (conn w)"
  "registry (on_conn f w) = registry w"
  "totalRequestsReceived (on_conn f w) = totalRequestsReceived w"
  "totalResponsesSent (on_conn f w) = totalResponsesSent w"
  "totalProcessingTimeMicroseconds (on_conn f w) = totalProcessingTimeMicroseconds w"
  "totalResponsesSentbyStatus (on_conn f w) = totalResponsesSentbyStatus w"
  by (simp_all add: on_conn_def)

text \<open>The terminal stage.\<close>

lemma dispatch_frame:
  "trace (snd (dispatch h r w)) = trace w @ [Router]"
  "registry (snd (dispatch h r w)) = registry w"
  by (simp_all add: dispatch_def Let_def split: prod.splits)

text \<open>Authentication in front of the terminal stage.\<close>

lemma authenticate_trace:
  "trace (snd (authenticate app (dispatch h) r w)) =
     trace w @ Authenticate #
       (case resolve app (Get (Header r) ''Authorization'') of
          Resolved i \<Rightarrow> [Router] | _ \<Rightarrow> [])"
  by (auto simp: authenticate_def resolve_def Let_def dispatch_frame
      split: list.splits sum.splits lookup_error.splits)

lemma authenticate_registry:
  "registry (snd (authenticate app (dispatch h) r w)) = registry w"
  by (auto simp: authenticate_def Let_def dispatch_frame
      split: list.splits sum.splits lookup_error.splits)


lemma admission_rejects_frame:
  "admission_rejects app r (enter st w) = admission_rejects app r w"
  "admission_rejects app r (on_conn f w) = admission_rejects app r w"
  "admission_rejects app r (w\<lparr>totalRequestsReceived := n\<rparr>) = admission_rejects app r w"
  by (simp_all add: admission_rejects_def)

lemma rateLimit_trace:
  "trace (snd (rateLimit app (authenticate app (dispatch h)) r w)) =
     trace w @ RateLimit #
       (if admission_rejects app r w then []
        else Authenticate #
          (case resolve app (Get (Header r) ''Authorization'') of
             Resolved i \<Rightarrow> [Router] | _ \<Rightarrow> []))"
  by (simp add: rateLimit_def Let_def admission_rejects_def authenticate_trace
      split: prod.splits)

lemma rateLimit_registry:
  "registry (snd (rateLimit app (authenticate app (dispatch h)) r w)) =
     (if limiter_enabled (config app)
      then snd (admit (config app) (RealIP r) (arrival r) (registry w))
      else registry w)"
  by (simp add: rateLimit_def Let_def authenticate_registry split: prod.splits)

lemma enableCORS_trace:
  "trace (snd (enableCORS app (rateLimit app (authenticate app (dispatch h))) r w)) =
     trace w @ EnableCORS #
       (if is_preflight app r then []
        else RateLimit #
          (if admission_rejects app r w then []
           else Authenticate #
             (case resolve app (Get (Header r) ''Authorization'') of
                Resolved i \<Rightarrow> [Router] | _ \<Rightarrow> [])))"
  by (simp add: enableCORS_def Let_def is_preflight_def rateLimit_trace
      admission_rejects_frame)

lemma enableCORS_registry:
  "registry (snd (enableCORS app (rateLimit app (authenticate app (dispatch h))) r w)) =
     (if \<not> is_preflight app r \<and> limiter_enabled (config app)
      then snd (admit (config app) (RealIP r) (arrival r) (registry w))
      else registry w)"
  by (simp add: enableCORS_def Let_def is_preflight_def rateLimit_registry)

lemma recoverPanic_returns: "fst (recoverPanic next r w) = Returned"
  by (simp add: recoverPanic_def split: prod.splits outcome.splits)

lemma recoverPanic_frame:
  "trace (snd (recoverPanic next r w)) = trace (snd (next r (enter RecoverPanic w)))"
  "registry (snd (recoverPanic next r w)) = registry (snd (next r (enter RecoverPanic w)))"
  by (simp_all add: recoverPanic_def split: prod.splits outcome.splits)

lemma metrics_frame:
  "trace (snd (metrics next r w)) =
     trace (snd (next r ((enter Metrics w)\<lparr>totalRequestsReceived := totalRequestsReceived w + 1\<rparr>)))"
  "registry (snd (metrics next r w)) =
     registry (snd (next r ((enter Metrics w)\<lparr>totalRequestsReceived := totalRequestsReceived w + 1\<rparr>)))"
  by (simp_all add: metrics_def Let_def split: prod.splits outcome.splits)

lemma metrics_recovered: "fst (metrics (recoverPanic next) r w) = Returned"
  using recoverPanic_returns[of "next" r "(enter Metrics w)\<lparr>totalRequestsReceived := totalRequestsReceived w + 1\<rparr>"]
  by (auto simp: metrics_def Let_def split: prod.splits outcome.splits)

lemma routes_returns: "fst (routes app h r w) = Returned"
  by (simp add: routes_def metrics_recovered)

lemma routes_trace:
  "trace (snd (routes app h r w)) =
     trace w @ Metrics # RecoverPanic # EnableCORS #
       (if is_preflight app r then []
        else RateLimit #
          (if admission_rejects app r w then []
           else Authenticate #
             (case resolve app (Get (Header r) ''Authorization'') of
                Resolved i \<Rightarrow> [Router] | _ \<Rightarrow> [])))"
  by (simp add: routes_def metrics_frame recoverPanic_frame enableCORS_trace
      admission_rejects_frame)

lemma routes_registry:
  "registry (snd (routes app h r w)) =
     (if \<not> is_preflight app r \<and> limiter_enabled (config app)
      then snd (admit (config app) (RealIP r) (arrival r) (registry w))
      else registry w)"
  by (simp add: routes_def metrics_frame recoverPanic_frame enableCORS_registry)


lemma rateLimit_rejects:
  assumes "admission_rejects app r w"
  shows "rateLimit app next r w =
     (Returned, on_conn rateLimitExceededResponse
        ((enter RateLimit w)\<lparr>registry := snd (admit (config app) (RealIP r) (arrival r) (registry w))\<rparr>))"
  using assms
  by (cases "admit (config app) (RealIP r) (arrival r) (registry w)")
     (simp add: rateLimit_def admission_rejects_def Let_def)

lemma enableCORS_passes:
  assumes "\<not> is_preflight app r"
  shows "\<exists>hs. enableCORS app next r w =
           next r (on_conn (\<lambda>c. c\<lparr>w_header := hs\<rparr>) (enter EnableCORS w))"
  using assms
  by (auto simp: enableCORS_def is_preflight_def Let_def on_conn_def Header_Set_def)

lemma rejected_response:
  assumes "\<not> is_preflight app r" "admission_rejects app r w"
  shows "\<exists>hs. enableCORS app (rateLimit app next) r w =
     (Returned, on_conn rateLimitExceededResponse
        ((enter RateLimit (on_conn (\<lambda>c. c\<lparr>w_header := hs\<rparr>) (enter EnableCORS w)))
           \<lparr>registry := snd (admit (config app) (RealIP r) (arrival r) (registry w))\<rparr>))"
proof -
  obtain hs where "enableCORS app (rateLimit app next) r w =
           rateLimit app next r (on_conn (\<lambda>c. c\<lparr>w_header := hs\<rparr>) (enter EnableCORS w))"
    using enableCORS_passes[OF assms(1)] by blast
  moreover have "admission_rejects app r (on_conn (\<lambda>c. c\<lparr>w_header := hs\<rparr>) (enter EnableCORS w))"
    using assms(2) by (simp add: admission_rejects_frame)
  ultimately show ?thesis by (auto simp: rateLimit_rejects)
qed

lemma routes_rejected:
  assumes "\<not> is_preflight app r" "admission_rejects app r w" "w_code (conn w) = None"
  shows "totalRequestsReceived (snd (routes app h r w)) = totalRequestsReceived w + 1"
    and "totalResponsesSent (snd (routes app h r w)) = totalResponsesSent w + 1"
    and "totalProcessingTimeMicroseconds (snd (routes app h r w)) =
           totalProcessingTimeMicroseconds w + elapsed_us r"
    and "totalResponsesSentbyStatus (snd (routes app h r w)) =
           (totalResponsesSentbyStatus w)(429 := totalResponsesSentbyStatus w 429 + 1)"
    and "w_code (conn (snd (routes app h r w))) = Some 429"
    and "w_body (conn (snd (routes app h r w))) = w_body (conn w) @ [ErrorBody RateLimitExceeded]"
    and "calls (conn (snd (routes app h r w))) = calls (conn w)"
proof -
  let ?w1 = "enter RecoverPanic ((enter Metrics w)\<lparr>totalRequestsReceived := totalRequestsReceived w + 1\<rparr>)"
  have np: "admission_rejects app r ?w1" using assms(2) by (simp add: admission_rejects_frame)
  obtain hs where e: "enableCORS app (rateLimit app (authenticate app (dispatch h))) r ?w1 =
     (Returned, on_conn rateLimitExceededResponse
        ((enter RateLimit (on_conn (\<lambda>c. c\<lparr>w_header := hs\<rparr>) (enter EnableCORS ?w1)))
           \<lparr>registry := snd (admit (config app) (RealIP r) (arrival r) (registry ?w1))\<rparr>))"
    using rejected_response[OF assms(1) np] by blast
  obtain hs' where e': "enableCORS app (rateLimit app (authenticate app (dispatch h'))) r ?w1 =
     (Returned, on_conn rateLimitExceededResponse
        ((enter RateLimit (on_conn (\<lambda>c. c\<lparr>w_header := hs'\<rparr>) (enter EnableCORS ?w1)))
           \<lparr>registry := snd (admit (config app) (RealIP r) (arrival r) (registry ?w1))\<rparr>))"
    using rejected_response[OF assms(1) np] by blast
  show "totalRequestsReceived (snd (routes app h r w)) = totalRequestsReceived w + 1"
    using assms(3)
    by (simp add: routes_def metrics_def recoverPanic_def Let_def e rateLimitExceededResponse_def
        errorResponse_def Write_def WriteHeader_def)
  show "totalResponsesSent (snd (routes app h r w)) = totalResponsesSent w + 1"
    using assms(3)
    by (simp add: routes_def metrics_def recoverPanic_def Let_def e rateLimitExceededResponse_def
        errorResponse_def Write_def WriteHeader_def)
  show "totalProcessingTimeMicroseconds (snd (routes app h r w)) =
           totalProcessingTimeMicroseconds w + elapsed_us r"
    using assms(3)
    by (simp add: routes_def metrics_def recoverPanic_def Let_def e rateLimitExceededResponse_def
        errorResponse_def Write_def WriteHeader_def)
  show "totalResponsesSentbyStatus (snd (routes app h r w)) =
           (totalResponsesSentbyStatus w)(429 := totalResponsesSentbyStatus w 429 + 1)"
    using assms(3)
    by (simp add: routes_def metrics_def recoverPanic_def Let_def e rateLimitExceededResponse_def
        errorResponse_def Write_def WriteHeader_def)
  show "w_code (conn (snd (routes app h r w))) = Some 429"
    using assms(3)
    by (simp add: routes_def metrics_def recoverPanic_def Let_def e rateLimitExceededResponse_def
        errorResponse_def Write_def WriteHeader_def)
  show "w_body (conn (snd (routes app h r w))) = w_body (conn w) @ [ErrorBody RateLimitExceeded]"
    using assms(3)
    by (simp add: routes_def metrics_def recoverPanic_def Let_def e rateLimitExceededResponse_def
        errorResponse_def Write_def WriteHeader_def)
  show "calls (conn (snd (routes app h r w))) = calls (conn w)"
    using assms(3)
    by (simp add: routes_def metrics_def recoverPanic_def Let_def e rateLimitExceededResponse_def
        errorResponse_def Write_def WriteHeader_def)
qed

lemma dispatch_result:
  "fst (dispatch h r w) = fst (h r (conn w))"
  "conn (snd (dispatch h r w)) = snd (h r (conn w))"
  "totalRequestsReceived (snd (dispatch h r w)) = totalRequestsReceived w"
  "totalResponsesSent (snd (dispatch h r w)) = totalResponsesSent w"
  "totalProcessingTimeMicroseconds (snd (dispatch h r w)) = totalProcessingTimeMicroseconds w"
  "totalResponsesSentbyStatus (snd (dispatch h r w)) = totalResponsesSentbyStatus w"
  by (simp_all add: dispatch_def Let_def enter_def split: prod.splits)

text \<open>\<open>authenticate\<close> in front of the router, by what the header resolves to.\<close>

lemma authenticate_result:
  "authenticate app (dispatch h) r w =
     (let a = Get (Header r) ''Authorization'';
          w3 = on_conn (\<lambda>c. (Header_Set ''Vary'' ''Authorization'' c)
                 \<lparr>calls := calls c @ storage_calls app a\<rparr>) (enter Authenticate w)
      in case resolve app a of
           Resolved i \<Rightarrow> dispatch h (contextSetUser r i) w3
         | InvalidCredential \<Rightarrow> (Returned, on_conn invalidAuthenticationTokenResponse w3)
         | ResolutionFailure err \<Rightarrow> (Returned, on_conn (serverErrorResponse err) w3))"
  by (auto simp: authenticate_def resolve_def storage_calls_def Let_def on_conn_def
      Header_Set_def
      split: list.splits sum.splits lookup_error.splits)


lemma rateLimit_result:
  "rateLimit app nxt r w =
     (let w1 = (enter RateLimit w)\<lparr>registry :=
                 (if limiter_enabled (config app)
                  then snd (admit (config app) (RealIP r) (arrival r) (registry w))
                  else registry w)\<rparr>
      in if admission_rejects app r w then (Returned, on_conn rateLimitExceededResponse w1)
         else nxt r w1)"
  by (cases "admit (config app) (RealIP r) (arrival r) (registry w)")
     (simp add: rateLimit_def admission_rejects_def Let_def enter_def)

lemma enableCORS_result:
  "enableCORS app nxt r w =
     (let w1 = on_conn (cors_headers app r) (enter EnableCORS w)
      in if is_preflight app r then (Returned, on_conn preflight_answer w1) else nxt r w1)"
  by (simp add: enableCORS_def is_preflight_def cors_headers_def preflight_answer_def Let_def
      on_conn_def)

lemma recoverPanic_result:
  "recoverPanic nxt r w =
     (Returned,
      case nxt r (enter RecoverPanic w) of
        (out, w') \<Rightarrow> w'\<lparr>conn := contained (out, conn w')\<rparr>)"
  by (simp add: recoverPanic_def on_conn_def split: prod.splits outcome.splits)

text \<open>The stages inside \<open>recoverPanic\<close>, together.\<close>

lemma inner_result:
  fixes app router r w
  defines "res \<equiv> enableCORS app (rateLimit app (authenticate app (dispatch router))) r w"
  defines "a \<equiv> Get (Header r) ''Authorization''"
  defines "c1 \<equiv> cors_headers app r (conn w)"
  defines "c3 \<equiv> (Header_Set ''Vary'' ''Authorization'' c1)\<lparr>calls := calls c1 @ storage_calls app a\<rparr>"
  shows "(fst res, conn (snd res)) =
           (if is_preflight app r then (Returned, preflight_answer c1)
            else if admission_rejects app r w then (Returned, rateLimitExceededResponse c1)
            else case resolve app a of
                   Resolved i \<Rightarrow> router (contextSetUser r i) c3
                 | InvalidCredential \<Rightarrow> (Returned, invalidAuthenticationTokenResponse c3)
                 | ResolutionFailure err \<Rightarrow> (Returned, serverErrorResponse err c3))"
    and "totalRequestsReceived (snd res) = totalRequestsReceived w"
    and "totalResponsesSent (snd res) = totalResponsesSent w"
    and "totalProcessingTimeMicroseconds (snd res) = totalProcessingTimeMicroseconds w"
    and "totalResponsesSentbyStatus (snd res) = totalResponsesSentbyStatus w"
  unfolding res_def a_def c1_def c3_def
  by (simp_all add: enableCORS_result rateLimit_result authenticate_result Let_def
      admission_rejects_def dispatch_result split: resolution.splits)

text \<open>
  C6. One tick of the sweep at clock reading \<open>now\<close>, for an entry of the map of a
  registry as the code can build it (\<open>registry_ok\<close>): when the
  entry was last seen more than three minutes before \<open>now\<close> it is absent afterwards; when
  it was seen within the three minutes it is still there, with the same struct. And a
  request that goes through the whole chain of \<open>routes\<close>, the only other code that reaches
  the map, removes no entry.
\<close>

theorem sweep_removes_exactly_the_stale:
  assumes "registry_ok reg" "clients reg ip = Some p"
  shows "(3 * minute < now - lastSeen (heap reg ! p) \<longrightarrow> clients (sweep now reg) ip = None) \<and>
         (now - lastSeen (heap reg ! p) \<le> 3 * minute \<longrightarrow>
            clients (sweep now reg) ip = Some p \<and> entry (sweep now reg) ip = entry reg ip) \<and>
         (registry w = reg \<longrightarrow> clients (registry (snd (routes app router r w))) ip = Some p)"
proof -
  have "clients (registry (snd (routes app router r w))) ip = Some p" if "registry w = reg"
    using assms(2) that by (simp add: routes_registry admit_keeps)
  then show ?thesis using assms(2) by (auto simp: sweep_def entry_def)
qed

theorem sweep_removes_exactly_the_stale_witness:
  "registry_ok (registry exhausted_world) \<and>
   clients (registry exhausted_world) ''10.0.0.1'' = Some 0 \<and>
   clients (sweep (4 * minute) (registry exhausted_world)) ''10.0.0.1'' = None \<and>
   clients (sweep (3 * minute) (registry exhausted_world)) ''10.0.0.1'' = Some 0 \<and>
   clients (registry (snd (routes example_app ok_handler (get_request []) exhausted_world)))
     ''10.0.0.1'' = Some 0"
proof -
  have c: "clients (registry exhausted_world) ''10.0.0.1'' = Some 0"
    by (simp add: exhausted_world_def)
  have l: "lastSeen (heap (registry exhausted_world) ! 0) = 0"
    by (simp add: exhausted_world_def)
  have m: "0 < minute" by (simp add: minute_def second_def)
  have ok: "registry_ok (registry exhausted_world)"
    by (simp add: registry_ok_def exhausted_world_def)
  note t4 = sweep_removes_exactly_the_stale
    [OF ok c, of "4 * minute" exhausted_world example_app ok_handler "get_request []"]
  note t3 = sweep_removes_exactly_the_stale
    [OF ok c, of "3 * minute" exhausted_world example_app ok_handler "get_request []"]
  have a: "clients (sweep (4 * minute) (registry exhausted_world)) ''10.0.0.1'' = None"
    using t4 l m by simp
  have b: "clients (sweep (3 * minute) (registry exhausted_world)) ''10.0.0.1'' = Some 0"
    using t3 l m by simp
  have d: "clients (registry (snd (routes example_app ok_handler (get_request []) exhausted_world)))
     ''10.0.0.1'' = Some 0"
    using t3 by simp
  show ?thesis using ok a b c d by blast
qed

lemma routes_result:
  fixes app router r w
  defines "w' \<equiv> snd (routes app router r w)"
  defines "a \<equiv> Get (Header r) ''Authorization''"
  defines "c1 \<equiv> cors_headers app r (conn w)"
  defines "c3 \<equiv> (Header_Set ''Vary'' ''Authorization'' c1)\<lparr>calls := calls c1 @ storage_calls app a\<rparr>"
  defines "code \<equiv> (case w_code (conn w') of None \<Rightarrow> 200 | Some c \<Rightarrow> c)"
  shows "conn w' =
           contained
             (if is_preflight app r then (Returned, preflight_answer c1)
              else if admission_rejects app r w then (Returned, rateLimitExceededResponse c1)
              else case resolve app a of
                     Resolved i \<Rightarrow> router (contextSetUser r i) c3
                   | InvalidCredential \<Rightarrow> (Returned, invalidAuthenticationTokenResponse c3)
                   | ResolutionFailure err \<Rightarrow> (Returned, serverErrorResponse err c3))"
    and "totalRequestsReceived w' = totalRequestsReceived w + 1"
    and "totalResponsesSent w' = totalResponsesSent w + 1"
    and "totalProcessingTimeMicroseconds w' = totalProcessingTimeMicroseconds w + elapsed_us r"
    and "totalResponsesSentbyStatus w' =
           (totalResponsesSentbyStatus w)(code := totalResponsesSentbyStatus w code + 1)"
proof -
  let ?w0 = "enter RecoverPanic
      ((enter Metrics w)\<lparr>totalRequestsReceived := totalRequestsReceived w + 1\<rparr>)"
  let ?res = "enableCORS app (rateLimit app (authenticate app (dispatch router))) r ?w0"
  let ?W = "(snd ?res)\<lparr>conn := contained (fst ?res, conn (snd ?res))\<rparr>"
  have rp: "recoverPanic (enableCORS app (rateLimit app (authenticate app (dispatch router)))) r
      ((enter Metrics w)\<lparr>totalRequestsReceived := totalRequestsReceived w + 1\<rparr>) = (Returned, ?W)"
    by (simp add: recoverPanic_result split: prod.splits)
  have w': "w' = ?W\<lparr>totalResponsesSent := totalResponsesSent ?W + 1,
        totalProcessingTimeMicroseconds := totalProcessingTimeMicroseconds ?W + elapsed_us r,
        totalResponsesSentbyStatus :=
          (totalResponsesSentbyStatus ?W)
            ((case w_code (conn ?W) of None \<Rightarrow> 200 | Some c \<Rightarrow> c) :=
               totalResponsesSentbyStatus ?W
                 (case w_code (conn ?W) of None \<Rightarrow> 200 | Some c \<Rightarrow> c) + 1)\<rparr>"
    unfolding w'_def routes_def metrics_def Let_def rp by simp
  note ir = inner_result[of app router r ?w0]
  have pair: "(fst ?res, conn (snd ?res)) =
           (if is_preflight app r then (Returned, preflight_answer c1)
            else if admission_rejects app r w then (Returned, rateLimitExceededResponse c1)
            else case resolve app a of
                   Resolved i \<Rightarrow> router (contextSetUser r i) c3
                 | InvalidCredential \<Rightarrow> (Returned, invalidAuthenticationTokenResponse c3)
                 | ResolutionFailure err \<Rightarrow> (Returned, serverErrorResponse err c3))"
    by (simp add: ir(1) admission_rejects_frame c1_def c3_def a_def split: resolution.splits)
  show c: "conn w' =
           contained
             (if is_preflight app r then (Returned, preflight_answer c1)
              else if admission_rejects app r w then (Returned, rateLimitExceededResponse c1)
              else case resolve app a of
                     Resolved i \<Rightarrow> router (contextSetUser r i) c3
                   | InvalidCredential \<Rightarrow> (Returned, invalidAuthenticationTokenResponse c3)
                   | ResolutionFailure err \<Rightarrow> (Returned, serverErrorResponse err c3))"
    unfolding pair[symmetric] by (simp add: w')
  show "totalRequestsReceived w' = totalRequestsReceived w + 1"
    by (simp add: w' ir(2))
  show "totalResponsesSent w' = totalResponsesSent w + 1"
    by (simp add: w' ir(3))
  show "totalProcessingTimeMicroseconds w' = totalProcessingTimeMicroseconds w + elapsed_us r"
    by (simp add: w' ir(4))
  have "conn ?W = conn w'" by (simp add: w')
  then show "totalResponsesSentbyStatus w' =
           (totalResponsesSentbyStatus w)(code := totalResponsesSentbyStatus w code + 1)"
    unfolding code_def by (simp add: w' ir(5))
qed

text \<open>
  C3. \<open>routes\<close> composes the stages so that each wraps all the later ones, in the order
  metrics, recoverPanic, enableCORS, rateLimit, authenticate, router. For every request,
  every router and every state of the chain:
  \<^item> the stages entered are the first \<open>k\<close> of that list, with \<open>k\<close> at least 3: 3 for a
    preflight that enableCORS answers, 4 for a request the rate limiter rejects, 5 for a
    credential that does not resolve, and all 6 otherwise;
  \<^item> metrics is outermost: whichever stage answers, the chain returns and the trailing
    accounting runs, on the status that the response ends with (200 of a preflight, 429
    of the limiter, 401 or 500 of authenticate, 500 of a contained panic, or the
    router's);
  \<^item> recoverPanic wraps all that follows: the response is what \<open>contained\<close> makes of the
    outcome of the later stages, so a panic of the router becomes the server-error
    response written after what the router had written;
  \<^item> enableCORS comes before the rate limiter: a preflight is answered without touching
    the registry, and every later answer is written on the headers of \<open>cors_headers\<close>;
  \<^item> the rate limiter comes before authenticate: a rejected request gets the rate-limit
    response with no call of storage and without the header of authenticate;
  \<^item> authenticate comes before the router: the router runs only when the credential
    resolves, once, on the request with the identity attached and on a response that
    holds the headers of both stages and nothing else new.
\<close>

theorem stages_run_in_pipeline_order:
  "let w' = snd (routes app router r w);
       a = Get (Header r) ''Authorization'';
       c1 = cors_headers app r (conn w);
       c3 = (Header_Set ''Vary'' ''Authorization'' c1)\<lparr>calls := calls c1 @ storage_calls app a\<rparr>;
       code = (case w_code (conn w') of None \<Rightarrow> 200 | Some c \<Rightarrow> c)
   in (\<exists>k\<ge>3. trace w' = trace w @ take k pipeline_order) \<and>
      (\<not> is_preflight app r \<and> \<not> admission_rejects app r w \<and> resolve app a = Resolved i \<longrightarrow>
         trace w' = trace w @ pipeline_order) \<and>
      trace w' =
        trace w @
          take (if is_preflight app r then 3
                else if admission_rejects app r w then 4
                else case resolve app a of Resolved j \<Rightarrow> 6 | _ \<Rightarrow> 5) pipeline_order \<and>
      fst (routes app router r w) = Returned \<and>
      totalRequestsReceived w' = totalRequestsReceived w + 1 \<and>
      totalResponsesSent w' = totalResponsesSent w + 1 \<and>
      totalProcessingTimeMicroseconds w' = totalProcessingTimeMicroseconds w + elapsed_us r \<and>
      totalResponsesSentbyStatus w' =
        (totalResponsesSentbyStatus w)(code := totalResponsesSentbyStatus w code + 1) \<and>
      conn w' =
        contained
          (if is_preflight app r then (Returned, preflight_answer c1)
           else if admission_rejects app r w then (Returned, rateLimitExceededResponse c1)
           else case resolve app a of
                  Resolved j \<Rightarrow> router (contextSetUser r j) c3
                | InvalidCredential \<Rightarrow> (Returned, invalidAuthenticationTokenResponse c3)
                | ResolutionFailure err \<Rightarrow> (Returned, serverErrorResponse err c3)) \<and>
      registry w' =
        (if \<not> is_preflight app r \<and> limiter_enabled (config app)
         then snd (admit (config app) (RealIP r) (arrival r) (registry w))
         else registry w)"
proof -
  have t: "trace (snd (routes app router r w)) =
        trace w @
          take (if is_preflight app r then 3
                else if admission_rejects app r w then 4
                else case resolve app (Get (Header r) ''Authorization'') of
                       Resolved j \<Rightarrow> 6 | _ \<Rightarrow> 5) pipeline_order"
    by (simp add: routes_trace pipeline_order_def split: resolution.splits)
  have k: "\<exists>k\<ge>3. trace (snd (routes app router r w)) = trace w @ take k pipeline_order"
  proof -
    have "(3::nat) \<le> (if is_preflight app r then 3
                else if admission_rejects app r w then 4
                else case resolve app (Get (Header r) ''Authorization'') of
                       Resolved j \<Rightarrow> 6 | _ \<Rightarrow> 5)"
      by (simp split: resolution.splits)
    then show ?thesis using t by blast
  qed
  have f: "trace (snd (routes app router r w)) = trace w @ pipeline_order"
    if "\<not> is_preflight app r \<and> \<not> admission_rejects app r w \<and>
        resolve app (Get (Header r) ''Authorization'') = Resolved i"
    using that by (simp add: routes_trace pipeline_order_def)
  show ?thesis
    unfolding Let_def
    using k f t routes_returns[of app router r w] routes_result[of app router r w]
      routes_registry[of app router r w]
    by (intro conjI impI) assumption+
qed

theorem stages_run_in_pipeline_order_witness:
  "\<not> is_preflight example_app
       (get_request [(''Authorization'', [''Bearer ABCDEFGHIJKLMNOPQRSTUVWXYZ''])]) \<and>
   \<not> admission_rejects example_app
       (get_request [(''Authorization'', [''Bearer ABCDEFGHIJKLMNOPQRSTUVWXYZ''])]) new_world \<and>
   resolve example_app
     (Get (Header (get_request [(''Authorization'', [''Bearer ABCDEFGHIJKLMNOPQRSTUVWXYZ''])]))
        ''Authorization'') = Resolved (Authenticated \<lparr>ID = 7, Activated = True\<rparr>) \<and>
   trace (snd (routes example_app ok_handler
       (get_request [(''Authorization'', [''Bearer ABCDEFGHIJKLMNOPQRSTUVWXYZ''])]) new_world)) =
     [Metrics, RecoverPanic, EnableCORS, RateLimit, Authenticate, Router] \<and>
   fst (routes example_app panicking_handler (get_request []) new_world) = Returned \<and>
   conn (snd (routes example_app panicking_handler (get_request []) new_world)) =
     contained (panicking_handler (contextSetUser (get_request []) AnonymousUser)
       (Header_Set ''Vary'' ''Authorization'' (cors_headers example_app (get_request []) new_conn))) \<and>
   totalResponsesSentbyStatus
     (snd (routes example_app panicking_handler (get_request []) new_world)) 500 = 1"
proof -
  let ?r = "get_request [(''Authorization'', [''Bearer ABCDEFGHIJKLMNOPQRSTUVWXYZ''])]"
  let ?i = "Authenticated \<lparr>ID = 7, Activated = True\<rparr>"
  have a: "\<not> is_preflight example_app ?r" by code_simp
  have b: "\<not> admission_rejects example_app ?r new_world" by code_simp
  have c: "resolve example_app (Get (Header ?r) ''Authorization'') = Resolved ?i" by code_simp
  have t: "trace new_world = []" by (simp add: new_world_def)
  note th = stages_run_in_pipeline_order
    [where app = example_app and router = ok_handler and r = ?r and w = new_world and i = ?i,
      unfolded Let_def]
  have "trace (snd (routes example_app ok_handler ?r new_world)) = trace new_world @ pipeline_order"
    using th a b c by blast
  then have d: "trace (snd (routes example_app ok_handler ?r new_world)) =
      [Metrics, RecoverPanic, EnableCORS, RateLimit, Authenticate, Router]"
    using t by (simp add: pipeline_order_def)
  note tp = stages_run_in_pipeline_order
    [where app = example_app and router = panicking_handler and r = "get_request []"
       and w = new_world and i = ?i, unfolded Let_def]
  have a': "\<not> is_preflight example_app (get_request [])" by code_simp
  have b': "\<not> admission_rejects example_app (get_request []) new_world" by code_simp
  have c': "resolve example_app (Get (Header (get_request [])) ''Authorization'') =
      Resolved AnonymousUser" by code_simp
  have s': "storage_calls example_app (Get (Header (get_request [])) ''Authorization'') = []"
    by code_simp
  have n: "conn new_world = new_conn" by (simp add: new_world_def)
  have e: "fst (routes example_app panicking_handler (get_request []) new_world) = Returned"
    using tp by blast
  have "conn (snd (routes example_app panicking_handler (get_request []) new_world)) =
        contained
          (if is_preflight example_app (get_request [])
           then (Returned, preflight_answer (cors_headers example_app (get_request []) (conn new_world)))
           else if admission_rejects example_app (get_request []) new_world
                then (Returned, rateLimitExceededResponse
                        (cors_headers example_app (get_request []) (conn new_world)))
                else case resolve example_app (Get (Header (get_request [])) ''Authorization'') of
                  Resolved j \<Rightarrow> panicking_handler (contextSetUser (get_request []) j)
                    ((Header_Set ''Vary'' ''Authorization''
                        (cors_headers example_app (get_request []) (conn new_world)))
                      \<lparr>calls := calls (cors_headers example_app (get_request []) (conn new_world)) @
                         storage_calls example_app (Get (Header (get_request [])) ''Authorization'')\<rparr>)
                | InvalidCredential \<Rightarrow> (Returned, invalidAuthenticationTokenResponse
                    ((Header_Set ''Vary'' ''Authorization''
                        (cors_headers example_app (get_request []) (conn new_world)))
                      \<lparr>calls := calls (cors_headers example_app (get_request []) (conn new_world)) @
                         storage_calls example_app (Get (Header (get_request [])) ''Authorization'')\<rparr>))
                | ResolutionFailure err \<Rightarrow> (Returned, serverErrorResponse err
                    ((Header_Set ''Vary'' ''Authorization''
                        (cors_headers example_app (get_request []) (conn new_world)))
                      \<lparr>calls := calls (cors_headers example_app (get_request []) (conn new_world)) @
                         storage_calls example_app (Get (Header (get_request [])) ''Authorization'')\<rparr>)))"
    using tp by blast
  then have f: "conn (snd (routes example_app panicking_handler (get_request []) new_world)) =
     contained (panicking_handler (contextSetUser (get_request []) AnonymousUser)
       (Header_Set ''Vary'' ''Authorization'' (cors_headers example_app (get_request []) new_conn)))"
    using a' b' c' s' n by (simp add: Header_Set_def)
  have code: "w_code (conn (snd (routes example_app panicking_handler (get_request []) new_world)))
      = Some 500"
    unfolding f
    by (simp add: panicking_handler_def serverErrorResponse_def errorResponse_def Write_def
        WriteHeader_def Header_Set_def cors_headers_def new_conn_def Let_def)
  have z: "totalResponsesSentbyStatus new_world 500 = 0" by (simp add: new_world_def)
  have "totalResponsesSentbyStatus
     (snd (routes example_app panicking_handler (get_request []) new_world)) =
     (totalResponsesSentbyStatus new_world)
       ((case w_code (conn (snd (routes example_app panicking_handler (get_request []) new_world)))
         of None \<Rightarrow> 200 | Some c \<Rightarrow> c) :=
        totalResponsesSentbyStatus new_world
          (case w_code (conn (snd (routes example_app panicking_handler (get_request []) new_world)))
           of None \<Rightarrow> 200 | Some c \<Rightarrow> c) + 1)"
    using tp by blast
  then have g: "totalResponsesSentbyStatus
     (snd (routes example_app panicking_handler (get_request []) new_world)) 500 = 1"
    using code z by simp
  show ?thesis using a b c d e f g by blast
qed

lemma routes_rejected_any_router:
  assumes "\<not> is_preflight app r" "admission_rejects app r w"
  shows "routes app h r w = routes app h' r w"
  using assms
  by (simp add: routes_def metrics_def recoverPanic_def enableCORS_def Let_def
      rateLimit_rejects admission_rejects_frame is_preflight_def)

text \<open>
  C8. A request that reaches the rate limiter (it is not a preflight that enableCORS
  answers) and that the limiter rejects, on a response to which no status was written
  yet: the stages entered are metrics, recoverPanic, enableCORS and rateLimit, so
  neither authenticate nor the router runs; the result does not depend on the router;
  storage is not called; the response is the rate-limit rejection with status 429; and
  the trailing accounting of metrics has run: one more response sent, the duration
  added, and the tally of status 429 raised by one.
\<close>

theorem rejected_request_is_counted_not_served:
  assumes "\<not> is_preflight app r" "admission_rejects app r w" "w_code (conn w) = None"
  shows "fst (routes app router r w) = Returned \<and>
         trace (snd (routes app router r w)) =
           trace w @ [Metrics, RecoverPanic, EnableCORS, RateLimit] \<and>
         routes app router r w = routes app router' r w \<and>
         calls (conn (snd (routes app router r w))) = calls (conn w) \<and>
         w_body (conn (snd (routes app router r w))) =
           w_body (conn w) @ [ErrorBody RateLimitExceeded] \<and>
         w_code (conn (snd (routes app router r w))) = Some 429 \<and>
         totalRequestsReceived (snd (routes app router r w)) = totalRequestsReceived w + 1 \<and>
         totalResponsesSent (snd (routes app router r w)) = totalResponsesSent w + 1 \<and>
         totalProcessingTimeMicroseconds (snd (routes app router r w)) =
           totalProcessingTimeMicroseconds w + elapsed_us r \<and>
         totalResponsesSentbyStatus (snd (routes app router r w)) =
           (totalResponsesSentbyStatus w)(429 := totalResponsesSentbyStatus w 429 + 1)"
proof -
  have t: "trace (snd (routes app router r w)) =
           trace w @ [Metrics, RecoverPanic, EnableCORS, RateLimit]"
    using assms(1,2) by (simp add: routes_trace)
  show ?thesis
    using routes_returns[of app router r w] t
      routes_rejected_any_router[OF assms(1,2), of router router']
      routes_rejected[OF assms, of router]
    by simp
qed

theorem rejected_request_is_counted_not_served_witness:
  "\<not> is_preflight example_app (get_request []) \<and>
   admission_rejects example_app (get_request []) exhausted_world \<and>
   w_code (conn exhausted_world) = None \<and>
   trace (snd (routes example_app ok_handler (get_request []) exhausted_world)) =
     [Metrics, RecoverPanic, EnableCORS, RateLimit] \<and>
   w_body (conn (snd (routes example_app ok_handler (get_request []) exhausted_world))) =
     [ErrorBody RateLimitExceeded] \<and>
   totalResponsesSent (snd (routes example_app ok_handler (get_request []) exhausted_world)) = 1 \<and>
   totalResponsesSentbyStatus
     (snd (routes example_app ok_handler (get_request []) exhausted_world)) 429 = 1"
proof -
  have a: "\<not> is_preflight example_app (get_request [])" by code_simp
  have b: "admission_rejects example_app (get_request []) exhausted_world" by code_simp
  have c: "w_code (conn exhausted_world) = None" by code_simp
  have i: "trace exhausted_world = []" "w_body (conn exhausted_world) = []"
    "totalResponsesSent exhausted_world = 0" "totalResponsesSentbyStatus exhausted_world 429 = 0"
    by (simp_all add: exhausted_world_def new_world_def new_conn_def)
  note t = rejected_request_is_counted_not_served[OF a b c, of ok_handler ok_handler]
  have d: "trace (snd (routes example_app ok_handler (get_request []) exhausted_world)) =
     [Metrics, RecoverPanic, EnableCORS, RateLimit]"
    using t i by simp
  have e: "w_body (conn (snd (routes example_app ok_handler (get_request []) exhausted_world))) =
     [ErrorBody RateLimitExceeded]"
    using t i by simp
  have f: "totalResponsesSent (snd (routes example_app ok_handler (get_request []) exhausted_world)) = 1"
    using t i by simp
  have g: "totalResponsesSentbyStatus
     (snd (routes example_app ok_handler (get_request []) exhausted_world)) 429 = 1"
    using t i by simp
  show ?thesis using a b c d e f g by blast
qed

lemma recoverPanic_contains:
  assumes "nxt r (enter RecoverPanic w) = (Panicked e, w')"
  shows "recoverPanic nxt r w =
           (Returned, on_conn (serverErrorResponse e)
                        (on_conn (Header_Set ''Connection:'' ''close'') w'))"
    and "w_body (conn (snd (recoverPanic nxt r w))) = w_body (conn w') @ [ErrorBody ServerError]"
    and "errlog (conn (snd (recoverPanic nxt r w))) = errlog (conn w') @ [e]"
    and "w_header (conn (snd (recoverPanic nxt r w))) ''Connection'' =
           w_header (conn w') ''Connection''"
    and "w_header (conn (snd (recoverPanic nxt r w))) ''Connection:'' = Some ''close''"
  using assms
  by (simp_all add: recoverPanic_def serverErrorResponse_def errorResponse_def Write_def
      WriteHeader_def Header_Set_def Let_def split: option.splits)

text \<open>
  C9. A request whose handler panics, through the whole chain: the chain returns (the
  process goes on), one server-error response with status 500 is written, and the header
  that \<open>recoverPanic\<close> sets is named \<open>Connection:\<close>, so the response carries no
  \<open>Connection\<close> header and the connection is not marked for closing.
\<close>

theorem recoverPanic_sets_no_Connection_header:
  "fst (routes example_app panicking_handler (get_request []) new_world) = Returned \<and>
   w_body (conn (snd (routes example_app panicking_handler (get_request []) new_world))) =
     [ErrorBody ServerError] \<and>
   w_code (conn (snd (routes example_app panicking_handler (get_request []) new_world))) =
     Some 500 \<and>
   w_header (conn (snd (routes example_app panicking_handler (get_request []) new_world)))
     ''Connection:'' = Some ''close'' \<and>
   w_header (conn (snd (routes example_app panicking_handler (get_request []) new_world)))
     ''Connection'' = None"
  by code_simp


section \<open>\<open>strings.Split\<close> and the shape of the Authorization header\<close>

lemma Split_nonempty: "Split s c \<noteq> []"
  by (induction s) (auto split: list.splits)

lemma Split_no_sep: "c \<notin> set a \<Longrightarrow> Split a c = [a]"
  by (induction a) auto

lemma Split_at_sep: "c \<notin> set a \<Longrightarrow> Split (a @ c # b) c = a # Split b c"
  by (induction a) auto

lemma Split_first:
  "Split s c = a # rest \<Longrightarrow>
     c \<notin> set a \<and> ((rest = [] \<and> s = a) \<or> (\<exists>b. s = a @ c # b \<and> rest = Split b c))"
proof (induction s arbitrary: a rest)
  case Nil
  then show ?case by auto
next
  case (Cons x xs)
  show ?case
  proof (cases "x = c")
    case True
    then show ?thesis using Cons.prems by auto
  next
    case False
    obtain p ps where sp: "Split xs c = p # ps"
      using Split_nonempty[of xs c] by (cases "Split xs c") auto
    have a: "a = x # p" "rest = ps" using Cons.prems False sp by auto
    show ?thesis using Cons.IH[OF sp] False a by auto
  qed
qed

lemma Split_single: "Split s c = [a] \<longleftrightarrow> s = a \<and> c \<notin> set a"
proof
  assume sp: "Split s c = [a]"
  from Split_first[OF sp] Split_nonempty[of _ c] show "s = a \<and> c \<notin> set a"
    by (metis)
next
  assume "s = a \<and> c \<notin> set a"
  then show "Split s c = [a]" by (simp add: Split_no_sep)
qed

lemma Split_pair:
  "Split s c = [a, b] \<longleftrightarrow> s = a @ c # b \<and> c \<notin> set a \<and> c \<notin> set b"
proof
  assume sp: "Split s c = [a, b]"
  from Split_first[OF sp] obtain b' where
    b': "c \<notin> set a" "s = a @ c # b'" "[b] = Split b' c" by auto
  from b'(3) have "b' = b \<and> c \<notin> set b" using Split_single[of b' c b] by simp
  with b' show "s = a @ c # b \<and> c \<notin> set a \<and> c \<notin> set b" by simp
next
  assume "s = a @ c # b \<and> c \<notin> set a \<and> c \<notin> set b"
  then show "Split s c = [a, b]" by (simp add: Split_at_sep Split_no_sep)
qed

lemma Split_bearer:
  "length (Split s (CHR '' '')) = 2 \<and> Split s (CHR '' '') ! 0 = ''Bearer''
     \<longleftrightarrow> (\<exists>tok. s = ''Bearer '' @ tok \<and> CHR '' '' \<notin> set tok)"
proof
  assume l: "length (Split s (CHR '' '')) = 2 \<and> Split s (CHR '' '') ! 0 = ''Bearer''"
  then obtain a b where ab: "Split s (CHR '' '') = [a, b]"
    by (auto simp: length_Suc_conv numeral_2_eq_2)
  with l have "a = ''Bearer''" by simp
  with ab show "\<exists>tok. s = ''Bearer '' @ tok \<and> CHR '' '' \<notin> set tok"
    by (auto simp: Split_pair)
next
  assume "\<exists>tok. s = ''Bearer '' @ tok \<and> CHR '' '' \<notin> set tok"
  then obtain tok where t: "s = ''Bearer'' @ CHR '' '' # tok" "CHR '' '' \<notin> set tok" by auto
  then have "Split s (CHR '' '') = [''Bearer'', tok]"
    unfolding Split_pair by simp
  then show "length (Split s (CHR '' '')) = 2 \<and> Split s (CHR '' '') ! 0 = ''Bearer''" by simp
qed

lemma Split_bearer_token:
  assumes "CHR '' '' \<notin> set tok"
  shows "Split (''Bearer '' @ tok) (CHR '' '') = [''Bearer'', tok]"
proof -
  have "''Bearer '' @ tok = ''Bearer'' @ CHR '' '' # tok" by simp
  then show ?thesis using assms unfolding Split_pair by simp
qed


text \<open>
  C4. \<open>authenticate\<close> decides on the value \<open>Header.Get\<close> gives for the Authorization
  header; a request has no Authorization header, in the words of the source and of the
  spec (an empty credential header), when that value is the empty string:
  \<^item> no header: the request goes on with the anonymous identity;
  \<^item> a header that is not \<open>Bearer\<close>, one space, and a token without a space that passes
    \<open>ValidateTokenPlaintext\<close>: the invalid-token response, and storage is not called;
  \<^item> otherwise \<open>Users.GetForToken\<close> is called with the authentication scope: no record
    gives the invalid-token response, any other error the server-error response, and a
    user lets the request go on with that user attached.
\<close>

theorem authenticate_case_analysis:
  "let h = Get (Header r) ''Authorization'';
       w1 = on_conn (Header_Set ''Vary'' ''Authorization'') (enter Authenticate w);
       w2 = (\<lambda>tok. on_conn (\<lambda>c. c\<lparr>calls := calls c @
                        [Call_GetForToken ScopeAuthentication tok]\<rparr>) w1)
   in (h = [] \<longrightarrow> authenticate app nxt r w = nxt (contextSetUser r AnonymousUser) w1) \<and>
      (h \<noteq> [] \<and>
       \<not> (\<exists>tok. h = ''Bearer '' @ tok \<and> CHR '' '' \<notin> set tok \<and> ValidateTokenPlaintext app tok) \<longrightarrow>
         authenticate app nxt r w = (Returned, on_conn invalidAuthenticationTokenResponse w1) \<and>
         calls (conn (snd (authenticate app nxt r w))) = calls (conn w)) \<and>
      (\<forall>tok. h = ''Bearer '' @ tok \<and> CHR '' '' \<notin> set tok \<and> ValidateTokenPlaintext app tok \<longrightarrow>
         authenticate app nxt r w =
           (case GetForToken app ScopeAuthentication tok of
              Inl ErrRecordNotFound \<Rightarrow>
                (Returned, on_conn invalidAuthenticationTokenResponse (w2 tok))
            | Inl (ErrOther err) \<Rightarrow> (Returned, on_conn (serverErrorResponse err) (w2 tok))
            | Inr u \<Rightarrow> nxt (contextSetUser r (Authenticated u)) (w2 tok)))"
proof -
  define h where "h = Get (Header r) ''Authorization''"
  define w1 where "w1 = on_conn (Header_Set ''Vary'' ''Authorization'') (enter Authenticate w)"
  have c1: "calls (conn (on_conn invalidAuthenticationTokenResponse w1)) = calls (conn w)"
    by (simp add: w1_def on_conn_def enter_def invalidAuthenticationTokenResponse_def
        errorResponse_def Write_def WriteHeader_def Header_Set_def Let_def split: option.splits)
  have a: "h = [] \<longrightarrow> authenticate app nxt r w = nxt (contextSetUser r AnonymousUser) w1"
    by (simp add: authenticate_def h_def w1_def Let_def)
  have b: "authenticate app nxt r w = (Returned, on_conn invalidAuthenticationTokenResponse w1)"
    if "h \<noteq> []"
      "\<not> (\<exists>tok. h = ''Bearer '' @ tok \<and> CHR '' '' \<notin> set tok \<and> ValidateTokenPlaintext app tok)"
  proof (cases "length (Split h (CHR '' '')) = 2 \<and> Split h (CHR '' '') ! 0 = ''Bearer''")
    case False
    then show ?thesis using that(1)
      by (auto simp: authenticate_def Let_def h_def[symmetric] w1_def[symmetric])
  next
    case True
    then obtain tok where t: "h = ''Bearer '' @ tok" "CHR '' '' \<notin> set tok"
      unfolding Split_bearer by blast
    then have nv: "\<not> ValidateTokenPlaintext app tok" using that(2) by blast
    have sp: "Split h (CHR '' '') = [''Bearer'', tok]"
      using t Split_bearer_token by simp
    show ?thesis using that(1) nv
      by (simp add: authenticate_def Let_def h_def[symmetric] w1_def[symmetric] sp)
  qed
  have c: "authenticate app nxt r w =
           (case GetForToken app ScopeAuthentication tok of
              Inl ErrRecordNotFound \<Rightarrow>
                (Returned, on_conn invalidAuthenticationTokenResponse
                   (on_conn (\<lambda>c. c\<lparr>calls := calls c @
                        [Call_GetForToken ScopeAuthentication tok]\<rparr>) w1))
            | Inl (ErrOther err) \<Rightarrow>
                (Returned, on_conn (serverErrorResponse err)
                   (on_conn (\<lambda>c. c\<lparr>calls := calls c @
                        [Call_GetForToken ScopeAuthentication tok]\<rparr>) w1))
            | Inr u \<Rightarrow> nxt (contextSetUser r (Authenticated u))
                   (on_conn (\<lambda>c. c\<lparr>calls := calls c @
                        [Call_GetForToken ScopeAuthentication tok]\<rparr>) w1))"
    if "h = ''Bearer '' @ tok" "CHR '' '' \<notin> set tok" "ValidateTokenPlaintext app tok" for tok
  proof -
    have sp: "Split h (CHR '' '') = [''Bearer'', tok]"
      using that Split_bearer_token by simp
    have ne: "h \<noteq> []" using that(1) by simp
    show ?thesis using that(3) ne
      by (simp add: authenticate_def Let_def h_def[symmetric] w1_def[symmetric] sp
          split: sum.splits lookup_error.splits)
  qed
  show ?thesis
    unfolding Let_def h_def[symmetric] w1_def[symmetric]
  proof (intro conjI allI impI)
    assume "h = []"
    then show "authenticate app nxt r w = nxt (contextSetUser r AnonymousUser) w1"
      using a by simp
  next
    assume p: "h \<noteq> [] \<and>
       \<not> (\<exists>tok. h = ''Bearer '' @ tok \<and> CHR '' '' \<notin> set tok \<and> ValidateTokenPlaintext app tok)"
    then show "authenticate app nxt r w = (Returned, on_conn invalidAuthenticationTokenResponse w1)"
      using b by blast
  next
    assume p: "h \<noteq> [] \<and>
       \<not> (\<exists>tok. h = ''Bearer '' @ tok \<and> CHR '' '' \<notin> set tok \<and> ValidateTokenPlaintext app tok)"
    then have "authenticate app nxt r w = (Returned, on_conn invalidAuthenticationTokenResponse w1)"
      using b by blast
    then show "calls (conn (snd (authenticate app nxt r w))) = calls (conn w)"
      using c1 by simp
  next
    fix tok
    assume "h = ''Bearer '' @ tok \<and> CHR '' '' \<notin> set tok \<and> ValidateTokenPlaintext app tok"
    then show "authenticate app nxt r w =
           (case GetForToken app ScopeAuthentication tok of
              Inl ErrRecordNotFound \<Rightarrow>
                (Returned, on_conn invalidAuthenticationTokenResponse
                   (on_conn (\<lambda>c. c\<lparr>calls := calls c @
                        [Call_GetForToken ScopeAuthentication tok]\<rparr>) w1))
            | Inl (ErrOther err) \<Rightarrow>
                (Returned, on_conn (serverErrorResponse err)
                   (on_conn (\<lambda>c. c\<lparr>calls := calls c @
                        [Call_GetForToken ScopeAuthentication tok]\<rparr>) w1))
            | Inr u \<Rightarrow> nxt (contextSetUser r (Authenticated u))
                   (on_conn (\<lambda>c. c\<lparr>calls := calls c @
                        [Call_GetForToken ScopeAuthentication tok]\<rparr>) w1))"
      using c by blast
  qed
qed

theorem authenticate_case_analysis_witness:
  "Get (Header (get_request [(''Authorization'', [''Bearer ABCDEFGHIJKLMNOPQRSTUVWXYZ''])]))
     ''Authorization'' = ''Bearer '' @ ''ABCDEFGHIJKLMNOPQRSTUVWXYZ'' \<and>
   CHR '' '' \<notin> set ''ABCDEFGHIJKLMNOPQRSTUVWXYZ'' \<and>
   ValidateTokenPlaintext example_app ''ABCDEFGHIJKLMNOPQRSTUVWXYZ'' \<and>
   authenticate example_app (dispatch whoami_handler)
     (get_request [(''Authorization'', [''Bearer ABCDEFGHIJKLMNOPQRSTUVWXYZ''])]) new_world =
   dispatch whoami_handler
     (contextSetUser (get_request [(''Authorization'', [''Bearer ABCDEFGHIJKLMNOPQRSTUVWXYZ''])])
        (Authenticated \<lparr>ID = 7, Activated = True\<rparr>))
     (on_conn (\<lambda>c. c\<lparr>calls := calls c @
          [Call_GetForToken ScopeAuthentication ''ABCDEFGHIJKLMNOPQRSTUVWXYZ'']\<rparr>)
        (on_conn (Header_Set ''Vary'' ''Authorization'') (enter Authenticate new_world)))"
proof -
  let ?r = "get_request [(''Authorization'', [''Bearer ABCDEFGHIJKLMNOPQRSTUVWXYZ''])]"
  let ?tok = "''ABCDEFGHIJKLMNOPQRSTUVWXYZ''"
  have a: "Get (Header ?r) ''Authorization'' = ''Bearer '' @ ?tok"
    by (simp add: get_request_def Get_def)
  have b: "CHR '' '' \<notin> set ?tok" by simp
  have c: "ValidateTokenPlaintext example_app ?tok" by (simp add: example_app_def)
  have g: "GetForToken example_app ScopeAuthentication ?tok = Inr \<lparr>ID = 7, Activated = True\<rparr>"
    by (simp add: example_app_def)
  have d: "authenticate example_app (dispatch whoami_handler) ?r new_world =
     dispatch whoami_handler (contextSetUser ?r (Authenticated \<lparr>ID = 7, Activated = True\<rparr>))
       (on_conn (\<lambda>c. c\<lparr>calls := calls c @ [Call_GetForToken ScopeAuthentication ?tok]\<rparr>)
          (on_conn (Header_Set ''Vary'' ''Authorization'') (enter Authenticate new_world)))"
  proof -
    note t = authenticate_case_analysis
      [of ?r new_world example_app "dispatch whoami_handler", unfolded Let_def]
    note t3 = t[THEN conjunct2, THEN conjunct2, THEN spec, of ?tok, THEN mp,
      OF conjI[OF a conjI[OF b c]]]
    show ?thesis using t3 unfolding g by simp
  qed
  show ?thesis using a b c d by blast
qed

text \<open>
  A header line with an empty value gives the empty string as well, and is read as no
  header: the request goes on to the handler as anonymous.
\<close>

lemma authenticate_empty_value_is_anonymous:
  "Header (get_request [(''Authorization'', [[]])]) ''Authorization'' = Some [[]] \<and>
   Split (Get (Header (get_request [(''Authorization'', [[]])])) ''Authorization'') (CHR '' '')
     = [[]] \<and>
   fst (authenticate example_app (dispatch whoami_handler)
          (get_request [(''Authorization'', [[]])]) new_world) = Returned \<and>
   w_body (conn (snd (authenticate example_app (dispatch whoami_handler)
          (get_request [(''Authorization'', [[]])]) new_world))) = [OtherBody ''anonymous''] \<and>
   w_code (conn (snd (authenticate example_app (dispatch whoami_handler)
          (get_request [(''Authorization'', [[]])]) new_world))) = Some 200 \<and>
   ErrorBody InvalidAuthenticationToken \<notin>
     set (w_body (conn (snd (authenticate example_app (dispatch whoami_handler)
          (get_request [(''Authorization'', [[]])]) new_world))))"
  by code_simp


section \<open>The guards\<close>

text \<open>
  C10. For a request that reaches a handler guarded by \<open>requirePermissions\<close> with an
  identity attached: an anonymous identity gets the authentication-required response; an
  authenticated user who is not activated gets the inactive-account response; for an
  authenticated and activated user, and only then, \<open>Permissions.GetAllForUser\<close> is
  called, and the handler runs when the permission is among the user's, the
  not-permitted response is sent when it is not, the server-error response when the
  lookup fails. So the guard sends the not-permitted response to no one but an
  authenticated, activated user.
\<close>

theorem guard_hierarchy:
  assumes "ctx_user r = Some ident"
  shows "(ident = AnonymousUser \<longrightarrow>
            requirePermissions app code nxt r c = (Returned, authenticationRequiredResponse c)) \<and>
         (\<forall>u. ident = Authenticated u \<and> \<not> Activated u \<longrightarrow>
            requirePermissions app code nxt r c = (Returned, inactiveAccountResponse c)) \<and>
         (\<forall>u. ident = Authenticated u \<and> Activated u \<longrightarrow>
            requirePermissions app code nxt r c =
              (let c1 = c\<lparr>calls := calls c @ [Call_GetAllForUser (ID u)]\<rparr>
               in case GetAllForUser app (ID u) of
                    Inl err \<Rightarrow> (Returned, serverErrorResponse err c1)
                  | Inr permissions \<Rightarrow>
                      if code \<in> set permissions then nxt r c1
                      else (Returned, notPermittedResponse c1))) \<and>
         (\<not> (\<exists>u. ident = Authenticated u \<and> Activated u) \<longrightarrow>
            calls (snd (requirePermissions app code nxt r c)) = calls c \<and>
            ErrorBody NotPermitted \<notin>
              set (drop (length (w_body c)) (w_body (snd (requirePermissions app code nxt r c)))))"
  using assms
  by (cases ident)
     (auto simp: requirePermissions_def requireActivatedUser_def requireAuthenticatedUser_def
        contextGetUser_def Let_def authenticationRequiredResponse_def inactiveAccountResponse_def
        errorResponse_def Write_def WriteHeader_def
        split: sum.splits option.splits)

theorem guard_hierarchy_witness:
  "ctx_user ((get_request [])\<lparr>ctx_user := Some AnonymousUser\<rparr>) = Some AnonymousUser \<and>
   requirePermissions example_app ''movies:read'' ok_handler
       ((get_request [])\<lparr>ctx_user := Some AnonymousUser\<rparr>) new_conn =
     (Returned, authenticationRequiredResponse new_conn) \<and>
   requirePermissions example_app ''movies:read'' ok_handler
       ((get_request [])\<lparr>ctx_user := Some (Authenticated \<lparr>ID = 7, Activated = False\<rparr>)\<rparr>)
       new_conn =
     (Returned, inactiveAccountResponse new_conn) \<and>
   requirePermissions example_app ''movies:write'' ok_handler
       ((get_request [])\<lparr>ctx_user := Some (Authenticated \<lparr>ID = 7, Activated = True\<rparr>)\<rparr>)
       new_conn =
     (Returned, notPermittedResponse (new_conn\<lparr>calls := [Call_GetAllForUser 7]\<rparr>)) \<and>
   requirePermissions example_app ''movies:read'' ok_handler
       ((get_request [])\<lparr>ctx_user := Some (Authenticated \<lparr>ID = 7, Activated = True\<rparr>)\<rparr>)
       new_conn =
     ok_handler ((get_request [])\<lparr>ctx_user := Some (Authenticated \<lparr>ID = 7, Activated = True\<rparr>)\<rparr>)
       (new_conn\<lparr>calls := [Call_GetAllForUser 7]\<rparr>)"
proof -
  let ?anon = "(get_request [])\<lparr>ctx_user := Some AnonymousUser\<rparr>"
  let ?idle = "(get_request [])\<lparr>ctx_user := Some (Authenticated \<lparr>ID = 7, Activated = False\<rparr>)\<rparr>"
  let ?user = "(get_request [])\<lparr>ctx_user := Some (Authenticated \<lparr>ID = 7, Activated = True\<rparr>)\<rparr>"
  have a: "ctx_user ?anon = Some AnonymousUser" by simp
  have i: "ctx_user ?idle = Some (Authenticated \<lparr>ID = 7, Activated = False\<rparr>)" by simp
  have u: "ctx_user ?user = Some (Authenticated \<lparr>ID = 7, Activated = True\<rparr>)" by simp
  have g: "GetAllForUser example_app 7 = Inr [''movies:read'']" by (simp add: example_app_def)
  have n: "calls new_conn = []" by (simp add: new_conn_def)
  have 1: "requirePermissions example_app ''movies:read'' ok_handler ?anon new_conn =
     (Returned, authenticationRequiredResponse new_conn)"
    using guard_hierarchy[OF a, of example_app "''movies:read''" ok_handler new_conn] by simp
  have 2: "requirePermissions example_app ''movies:read'' ok_handler ?idle new_conn =
     (Returned, inactiveAccountResponse new_conn)"
    using guard_hierarchy[OF i, of example_app "''movies:read''" ok_handler new_conn] by simp
  have 3: "requirePermissions example_app ''movies:write'' ok_handler ?user new_conn =
     (Returned, notPermittedResponse (new_conn\<lparr>calls := [Call_GetAllForUser 7]\<rparr>))"
    using guard_hierarchy[OF u, of example_app "''movies:write''" ok_handler new_conn] g n
    by (simp add: Let_def)
  have 4: "requirePermissions example_app ''movies:read'' ok_handler ?user new_conn =
     ok_handler ?user (new_conn\<lparr>calls := [Call_GetAllForUser 7]\<rparr>)"
    using guard_hierarchy[OF u, of example_app "''movies:read''" ok_handler new_conn] g n
    by (simp add: Let_def)
  show ?thesis using a 1 2 3 4 by blast
qed


section \<open>\<open>serve\<close>: shutdown and the background tasks\<close>

lemma exec_append:
  "exec (es @ es') s = (case exec es s of None \<Rightarrow> None | Some s' \<Rightarrow> exec es' s')"
  by (induction es arbitrary: s) (auto split: option.splits)

lemma exec_snoc:
  "exec (es @ [e]) s = Some s' \<longleftrightarrow> (\<exists>s0. exec es s = Some s0 \<and> step e s0 = Some s')"
  by (auto simp: exec_append split: option.splits)

lemma first_recognized_snoc:
  "first_recognized (es @ [e]) =
     (case first_recognized es of Some sg \<Rightarrow> Some sg | None \<Rightarrow> first_recognized [e])"
  by (induction es rule: first_recognized.induct) auto

lemma caught_signals_append:
  "caught_signals (xs @ ys) = caught_signals xs @ caught_signals ys"
  by (induction xs rule: caught_signals.induct) auto

lemma waited_at_zero_snoc: "waited_at_zero es \<Longrightarrow> waited_at_zero (es @ [e])"
proof -
  assume "waited_at_zero es"
  then obtain pre post s1 where "es = pre @ WaitReturns # post"
    "exec pre serve_init = Some s1" "sig_at s1 = WgWait" "wg s1 = 0"
    unfolding waited_at_zero_def by blast
  then have "es @ [e] = pre @ WaitReturns # (post @ [e]) \<and> exec pre serve_init = Some s1 \<and>
      sig_at s1 = WgWait \<and> wg s1 = 0" by simp
  then show ?thesis unfolding waited_at_zero_def by blast
qed

lemma waited_at_zero_now:
  assumes "exec es serve_init = Some s0" "sig_at s0 = WgWait" "wg s0 = 0"
  shows "waited_at_zero (es @ [WaitReturns])"
proof -
  have "es @ [WaitReturns] = es @ WaitReturns # [] \<and> exec es serve_init = Some s0 \<and>
      sig_at s0 = WgWait \<and> wg s0 = 0" using assms by simp
  then show ?thesis unfolding waited_at_zero_def by blast
qed

lemma reached_ok_init: "reached_ok [] serve_init"
  by (simp add: reached_ok_def serve_init_def)

lemma reached_ok_step:
  assumes "exec es serve_init = Some s0" "reached_ok es s0" "step e s0 = Some s"
  shows "reached_ok (es @ [e]) s"
proof -
  have run: "running s0" using assms(3) by (auto simp: step_def split: if_splits)
  note inv = assms(2)[unfolded reached_ok_def]
  have keep: "waited_at_zero es \<Longrightarrow> waited_at_zero (es @ [e])"
    by (rule waited_at_zero_snoc)
  show ?thesis
  proof (cases e)
    case (Deliver sg)
    then show ?thesis using assms(3) inv run keep
      unfolding reached_ok_def first_recognized_snoc
      by (auto simp: step_def split: if_splits option.splits)
  next
    case QuitRecv
    then show ?thesis using assms(3) inv run keep
      unfolding reached_ok_def first_recognized_snoc
      by (auto simp: step_def caught_signals_append
          split: if_splits option.splits sig_pc.splits list.splits)
  next
    case (ShutdownReturns x)
    then show ?thesis using assms(3) inv run keep
      unfolding reached_ok_def first_recognized_snoc
      by (auto simp: step_def caught_signals_append split: if_splits option.splits)
  next
    case WaitReturns
    have "sig_at s0 = WgWait \<and> wg s0 = 0" using assms(3) WaitReturns
      by (auto simp: step_def split: if_splits)
    then have "waited_at_zero (es @ [e])"
      using assms(1) WaitReturns waited_at_zero_now by simp
    then show ?thesis using assms(3) inv run WaitReturns
      unfolding reached_ok_def first_recognized_snoc
      by (auto simp: step_def split: if_splits option.splits)
  next
    case Handoff
    show ?thesis using assms(3) inv run Handoff keep
      unfolding reached_ok_def first_recognized_snoc
      by (auto simp: step_def caught_signals_append
          split: if_splits option.splits sig_pc.splits)
  next
    case (ListenReturns x)
    show ?thesis using assms(3) inv run ListenReturns keep
      unfolding reached_ok_def first_recognized_snoc
      by (auto simp: step_def split: if_splits option.splits)
  next
    case TaskSpawn
    show ?thesis using assms(3) inv run TaskSpawn keep
      unfolding reached_ok_def first_recognized_snoc
      by (auto simp: step_def split: if_splits option.splits)
  next
    case TaskDone
    show ?thesis using assms(3) inv run TaskDone keep
      unfolding reached_ok_def first_recognized_snoc
      by (auto simp: step_def split: if_splits option.splits)
  qed
qed

lemma reached_ok_exec:
  "exec evs serve_init = Some s \<Longrightarrow> reached_ok evs s"
proof (induction evs arbitrary: s rule: rev_induct)
  case Nil
  then show ?case using reached_ok_init by simp
next
  case (snoc e es)
  then obtain s0 where "exec es serve_init = Some s0" "step e s0 = Some s"
    by (auto simp: exec_snoc)
  then show ?case using snoc.IH reached_ok_step by blast
qed


text \<open>
  C1. In every run of \<open>serve\<close>: when \<open>serve\<close> has returned nil, then earlier in the run,
  after \<open>Shutdown\<close> had returned, the goroutine was in \<open>app.wg.Wait()\<close> with the counter of
  background tasks at zero and \<open>Wait\<close> returned. And in a run where the counter is
  positive whenever the goroutine is in \<open>Wait\<close> (a task registered before and never
  finished), \<open>serve\<close> has not returned nil.
\<close>

theorem completed_only_after_wait_group_zero:
  assumes "exec evs serve_init = Some s"
  shows "(main_at s = ServeReturned None \<longrightarrow>
            (\<exists>pre post s1. evs = pre @ WaitReturns # post \<and> exec pre serve_init = Some s1 \<and>
               sig_at s1 = WgWait \<and> wg s1 = 0)) \<and>
         ((\<forall>pre s1. prefix pre evs \<longrightarrow> exec pre serve_init = Some s1 \<longrightarrow>
              sig_at s1 = WgWait \<longrightarrow> 0 < wg s1) \<longrightarrow>
            main_at s \<noteq> ServeReturned None)"
proof -
  have ok: "reached_ok evs s" using assms by (rule reached_ok_exec)
  have a: "\<exists>pre post s1. evs = pre @ WaitReturns # post \<and> exec pre serve_init = Some s1 \<and>
               sig_at s1 = WgWait \<and> wg s1 = 0"
    if "main_at s = ServeReturned None"
    using ok that unfolding reached_ok_def waited_at_zero_def by blast
  have b: "main_at s \<noteq> ServeReturned None"
    if never: "\<forall>pre s1. prefix pre evs \<longrightarrow> exec pre serve_init = Some s1 \<longrightarrow>
              sig_at s1 = WgWait \<longrightarrow> 0 < wg s1"
  proof
    assume "main_at s = ServeReturned None"
    then obtain pre post s1 where w: "evs = pre @ WaitReturns # post"
      "exec pre serve_init = Some s1" "sig_at s1 = WgWait" "wg s1 = 0"
      using a by blast
    have "prefix pre evs" using w(1) by simp
    then have "0 < wg s1" using never w(2,3) by blast
    then show False using w(4) by simp
  qed
  show ?thesis using a b by blast
qed

theorem completed_only_after_wait_group_zero_witness:
  "exec [TaskSpawn, Deliver SIGTERM, QuitRecv, ListenReturns ErrServerClosed,
         ShutdownReturns None, TaskDone, WaitReturns, Handoff] serve_init =
     Some \<lparr>quit = [], sig_at = SigDone, main_at = ServeReturned None, wg = 0,
           shutdown_called = 1,
           logged = [StartingServer, CaughtSignal SIGTERM, CompletingBackgroundTasks,
                     StoppedServer]\<rparr> \<and>
   (\<exists>pre post s1.
       [TaskSpawn, Deliver SIGTERM, QuitRecv, ListenReturns ErrServerClosed,
        ShutdownReturns None, TaskDone, WaitReturns, Handoff] = pre @ WaitReturns # post \<and>
       exec pre serve_init = Some s1 \<and> sig_at s1 = WgWait \<and> wg s1 = 0) \<and>
   exec [TaskSpawn, Deliver SIGINT, QuitRecv, ListenReturns ErrServerClosed,
         ShutdownReturns None] serve_init =
     Some \<lparr>quit = [], sig_at = WgWait, main_at = RecvShutdownError, wg = 1,
           shutdown_called = 1,
           logged = [StartingServer, CaughtSignal SIGINT, CompletingBackgroundTasks]\<rparr> \<and>
   main_at \<lparr>quit = [], sig_at = WgWait, main_at = RecvShutdownError, wg = 1,
           shutdown_called = 1,
           logged = [StartingServer, CaughtSignal SIGINT, CompletingBackgroundTasks]\<rparr>
     \<noteq> ServeReturned None"
proof -
  let ?evs = "[TaskSpawn, Deliver SIGTERM, QuitRecv, ListenReturns ErrServerClosed,
         ShutdownReturns None, TaskDone, WaitReturns, Handoff]"
  let ?s = "\<lparr>quit = [], sig_at = SigDone, main_at = ServeReturned None, wg = 0,
           shutdown_called = 1,
           logged = [StartingServer, CaughtSignal SIGTERM, CompletingBackgroundTasks,
                     StoppedServer]\<rparr>"
  let ?evs' = "[TaskSpawn, Deliver SIGINT, QuitRecv, ListenReturns ErrServerClosed,
         ShutdownReturns None]"
  let ?s' = "\<lparr>quit = [], sig_at = WgWait, main_at = RecvShutdownError, wg = 1,
           shutdown_called = 1,
           logged = [StartingServer, CaughtSignal SIGINT, CompletingBackgroundTasks]\<rparr>"
  have e: "exec ?evs serve_init = Some ?s" by code_simp
  have e': "exec ?evs' serve_init = Some ?s'" by code_simp
  have a: "\<exists>pre post s1. ?evs = pre @ WaitReturns # post \<and>
       exec pre serve_init = Some s1 \<and> sig_at s1 = WgWait \<and> wg s1 = 0"
    using completed_only_after_wait_group_zero[OF e] by simp
  have pending: "\<forall>pre s1. prefix pre ?evs' \<longrightarrow> exec pre serve_init = Some s1 \<longrightarrow>
              sig_at s1 = WgWait \<longrightarrow> 0 < wg s1"
  proof (intro allI impI)
    fix pre s1
    assume "prefix pre ?evs'" and x: "exec pre serve_init = Some s1" and w: "sig_at s1 = WgWait"
    then have "pre \<in> set (prefixes ?evs')" by (simp only: in_set_prefixes)
    then consider "pre = []" | "pre = [TaskSpawn]" | "pre = [TaskSpawn, Deliver SIGINT]"
      | "pre = [TaskSpawn, Deliver SIGINT, QuitRecv]"
      | "pre = [TaskSpawn, Deliver SIGINT, QuitRecv, ListenReturns ErrServerClosed]"
      | "pre = ?evs'"
      by auto
    then show "0 < wg s1"
    proof cases
      case 1 then show ?thesis using x w by (auto simp: serve_init_def)
    next
      case 2 then show ?thesis using x w
        by (auto simp: serve_init_def step_def running_def)
    next
      case 3 then show ?thesis using x w
        by (auto simp: serve_init_def step_def running_def recognized_def)
    next
      case 4 then show ?thesis using x w
        by (auto simp: serve_init_def step_def running_def recognized_def)
    next
      case 5 then show ?thesis using x w
        by (auto simp: serve_init_def step_def running_def recognized_def)
    next
      case 6 then show ?thesis using x w e' by auto
    qed
  qed
  have b: "main_at ?s' \<noteq> ServeReturned None"
    using completed_only_after_wait_group_zero[OF e'] pending by blast
  show ?thesis using e a e' b by blast
qed

text \<open>Two states that differ only in an unread buffer go on in the same way.\<close>

lemma same_shutdown_step:
  assumes "same_shutdown s t"
  shows "rel_option same_shutdown (step e s) (step e t)"
proof -
  have r: "running s = running t" using assms
    by (simp add: same_shutdown_def shutdown_state_def running_def)
  show ?thesis
  proof (cases "running s")
    case False
    then show ?thesis using r by (simp add: step_def)
  next
    case True
    then show ?thesis using r assms
      by (cases e)
         (auto simp: step_def same_shutdown_def shutdown_state_def
            split: sig_pc.splits list.splits option.splits)
  qed
qed

lemma same_shutdown_exec:
  assumes "same_shutdown s t"
  shows "rel_option same_shutdown (exec es s) (exec es t)"
  using assms
proof (induction es arbitrary: s t)
  case Nil
  then show ?case by simp
next
  case (Cons e es)
  from same_shutdown_step[OF Cons.prems, of e] show ?case
    by (cases "step e s"; cases "step e t") (auto intro: Cons.IH)
qed

lemma same_shutdown_state:
  "rel_option same_shutdown x y \<Longrightarrow> map_option shutdown_state x = map_option shutdown_state y"
  by (cases x; cases y) (auto simp: same_shutdown_def)

lemma later_signal_dropped:
  assumes "reached_ok evs s" "first_recognized evs \<noteq> None" "running s" "recognized sg"
  shows "\<exists>s'. step (Deliver sg) s = Some s' \<and> same_shutdown s' s"
  using assms
  by (cases "sig_at s = AwaitSignal")
     (auto simp: reached_ok_def step_def same_shutdown_def shutdown_state_def)

text \<open>
  C2. In every run of \<open>serve\<close>: \<open>srv.Shutdown\<close> is called at most once; when it was called,
  the signal that was caught is the first SIGINT or SIGTERM delivered; once such a signal
  was delivered and while \<open>serve\<close> is running, the goroutine's step that calls \<open>Shutdown\<close>
  is enabled until it is taken; and every SIGINT or SIGTERM delivered after the first
  changes nothing of the state of the shutdown, now or in any continuation of the run.
\<close>

theorem shutdown_begins_exactly_once:
  assumes "exec evs serve_init = Some s"
  shows "shutdown_called s \<le> 1 \<and>
         (shutdown_called s = 1 \<longrightarrow>
            (\<exists>sg. first_recognized evs = Some sg \<and> caught_signals (logged s) = [sg])) \<and>
         (first_recognized evs \<noteq> None \<and> running s \<and> shutdown_called s = 0 \<longrightarrow>
            (\<exists>s'. step QuitRecv s = Some s' \<and> shutdown_called s' = 1)) \<and>
         (\<forall>sg rest. first_recognized evs \<noteq> None \<and> running s \<and> recognized sg \<longrightarrow>
            map_option shutdown_state (exec (Deliver sg # rest) s) =
            map_option shutdown_state (exec rest s))"
proof -
  have ok: "reached_ok evs s" using assms by (rule reached_ok_exec)
  have a: "shutdown_called s \<le> 1"
    using ok by (cases "sig_at s = AwaitSignal") (auto simp: reached_ok_def)
  have b: "\<exists>sg. first_recognized evs = Some sg \<and> caught_signals (logged s) = [sg]"
    if "shutdown_called s = 1"
    using ok that by (cases "sig_at s = AwaitSignal") (auto simp: reached_ok_def)
  have c: "\<exists>s'. step QuitRecv s = Some s' \<and> shutdown_called s' = 1"
    if "first_recognized evs \<noteq> None" "running s" "shutdown_called s = 0"
    using ok that by (cases "sig_at s = AwaitSignal") (auto simp: reached_ok_def step_def)
  have d: "map_option shutdown_state (exec (Deliver sg # rest) s) =
            map_option shutdown_state (exec rest s)"
    if p: "first_recognized evs \<noteq> None" "running s" "recognized sg" for sg rest
  proof -
    obtain s' where s': "step (Deliver sg) s = Some s'" "same_shutdown s' s"
      using later_signal_dropped[OF ok p] by blast
    have "rel_option same_shutdown (exec rest s') (exec rest s)"
      using s'(2) by (rule same_shutdown_exec)
    then show ?thesis using s'(1) by (simp add: same_shutdown_state)
  qed
  show ?thesis using a b c d by blast
qed

theorem shutdown_begins_exactly_once_witness:
  "exec [Deliver SIGINT, Deliver SIGTERM, QuitRecv, Deliver SIGTERM] serve_init =
     Some \<lparr>quit = [SIGTERM], sig_at = InShutdown, main_at = InListenAndServe, wg = 0,
           shutdown_called = 1, logged = [StartingServer, CaughtSignal SIGINT]\<rparr> \<and>
   first_recognized [Deliver SIGINT, Deliver SIGTERM, QuitRecv, Deliver SIGTERM] = Some SIGINT \<and>
   running \<lparr>quit = [SIGTERM], sig_at = InShutdown, main_at = InListenAndServe, wg = 0,
           shutdown_called = 1, logged = [StartingServer, CaughtSignal SIGINT]\<rparr> \<and>
   recognized SIGTERM \<and>
   map_option shutdown_state
     (exec [Deliver SIGTERM, ShutdownReturns None, WaitReturns]
        \<lparr>quit = [SIGTERM], sig_at = InShutdown, main_at = InListenAndServe, wg = 0,
         shutdown_called = 1, logged = [StartingServer, CaughtSignal SIGINT]\<rparr>) =
   map_option shutdown_state
     (exec [ShutdownReturns None, WaitReturns]
        \<lparr>quit = [SIGTERM], sig_at = InShutdown, main_at = InListenAndServe, wg = 0,
         shutdown_called = 1, logged = [StartingServer, CaughtSignal SIGINT]\<rparr>)"
proof -
  let ?evs = "[Deliver SIGINT, Deliver SIGTERM, QuitRecv, Deliver SIGTERM]"
  let ?s = "\<lparr>quit = [SIGTERM], sig_at = InShutdown, main_at = InListenAndServe, wg = 0,
           shutdown_called = 1, logged = [StartingServer, CaughtSignal SIGINT]\<rparr>"
  have e: "exec ?evs serve_init = Some ?s" by code_simp
  have f: "first_recognized ?evs = Some SIGINT" by code_simp
  have r: "running ?s" by code_simp
  have g: "recognized SIGTERM" by code_simp
  have "map_option shutdown_state (exec (Deliver SIGTERM # [ShutdownReturns None, WaitReturns]) ?s) =
        map_option shutdown_state (exec [ShutdownReturns None, WaitReturns] ?s)"
    using shutdown_begins_exactly_once[OF e] f r g by blast
  then show ?thesis using e f r g by blast
qed

end
